theory Spec2Isabelle
  imports Main
begin

section \<open>The focus-on-hover editor contribution\<close>

text \<open>
  A shallow embedding of \<^verbatim>\<open>src/vs/editor/contrib/focusOnHover/focusOnHover.ts\<close>.
  The class \<^verbatim>\<open>FocusOnHoverController\<close> mutates its own fields, the fields of a
  sibling instance, the static array \<^verbatim>\<open>Instances\<close> and the host's event emitters.
  All of this is one explicit \<open>state\<close> that every method takes and returns.
  A JavaScript \<^verbatim>\<open>TypeError\<close> (a method call or property write on
  \<^verbatim>\<open>undefined\<close>) is the value \<open>Inl TypeError\<close>.
\<close>

subsection \<open>Identities\<close>

type_synonym cid = nat \<comment> \<open>a controller object; the index of the object in \<open>objs\<close>\<close>
type_synonym eid = nat \<comment> \<open>an editor (\<^verbatim>\<open>ICodeEditor\<close>)\<close>
type_synonym tid = nat \<comment> \<open>\<^verbatim>\<open>ITerminalInstance.id\<close>\<close>
type_synonym sid = nat \<comment> \<open>an \<^verbatim>\<open>IDisposable\<close> returned by subscribing; the index in \<open>subs\<close>\<close>

datatype error = TypeError

subsection \<open>The host's events\<close>

text \<open>
  Modelled from the spec: the host's editor and terminal service (section 6, "subscribable"
  events; their code is not part of the source file). Subscribing a listener to an event
  returns a fresh disposable; disposing it removes the listener, and disposing it again
  does nothing. A listener is recorded by the event it is subscribed to and the callback
  the source passes:
  \<^item> \<open>ConfigurationListener e c\<close>: on \<^verbatim>\<open>onDidChangeConfiguration\<close> of editor \<open>e\<close>,
    the arrow function of lines 38-43 closed over controller \<open>c\<close>;
  \<^item> \<open>EditorMouseMoveListener e c\<close>: on \<^verbatim>\<open>onMouseMove\<close> of editor \<open>e\<close>,
    \<^verbatim>\<open>_ => this._onEditorMouseMove()\<close> of controller \<open>c\<close>;
  \<^item> \<open>InstanceCreatedListener c\<close>, \<open>InstanceDisposedListener c\<close>: on the terminal
    service's two events, the callbacks of \<^verbatim>\<open>_handleTerminals\<close> of controller \<open>c\<close>;
  \<^item> \<open>TerminalMouseMoveListener t\<close>: on \<^verbatim>\<open>onMouseMove\<close> of the terminal with
    identifier \<open>t\<close>, \<^verbatim>\<open>t => t.focus()\<close>: a per-terminal hook.
\<close>

datatype listener =
    ConfigurationListener eid cid
  | EditorMouseMoveListener eid cid
  | InstanceCreatedListener cid
  | InstanceDisposedListener cid
  | TerminalMouseMoveListener tid

subsection \<open>The hook map\<close>

text \<open>
  \<^verbatim>\<open>_terminalHooks\<close> is a JavaScript \<^verbatim>\<open>Map\<close> object. The source uses it in two
  ways that JavaScript keeps apart:
  \<^item> \<^verbatim>\<open>has\<close>, \<^verbatim>\<open>delete\<close> and \<^verbatim>\<open>clear\<close> work on the entries of the
    Map (\<open>entries\<close>); the source never calls \<^verbatim>\<open>set\<close>;
  \<^item> \<^verbatim>\<open>this._terminalHooks[id] = hook\<close>, \<^verbatim>\<open>this._terminalHooks[id]\<close> and
    \<^verbatim>\<open>for (const k in this._terminalHooks)\<close> write, read and enumerate own
    properties of the object (\<open>props\<close>).
  Both are association lists from terminal identifier to hook. \<open>props\<close> is kept in
  ascending key order, the order in which \<^verbatim>\<open>for ... in\<close> visits integer keys.
\<close>

record hook_map =
  entries :: "(tid \<times> sid) list"
  props :: "(tid \<times> sid) list"

definition new_Map :: hook_map where
  "new_Map = \<lparr>entries = [], props = []\<rparr>"

fun put :: "tid \<Rightarrow> sid \<Rightarrow> (tid \<times> sid) list \<Rightarrow> (tid \<times> sid) list" where
  "put k v [] = [(k, v)]"
| "put k v ((k', v') # kvs) =
     (if k < k' then (k, v) # (k', v') # kvs
      else if k = k' then (k, v) # kvs
      else (k', v') # put k v kvs)"

definition has :: "hook_map \<Rightarrow> tid \<Rightarrow> bool" where
  "has m k = (map_of (entries m) k \<noteq> None)"

definition delete :: "tid \<Rightarrow> hook_map \<Rightarrow> hook_map" where
  "delete k m = m\<lparr>entries := filter (\<lambda>kv. fst kv \<noteq> k) (entries m)\<rparr>"

definition clear :: "hook_map \<Rightarrow> hook_map" where
  "clear m = m\<lparr>entries := []\<rparr>"

subsection \<open>Controllers and the state\<close>

record controller =
  editor :: eid
  didChangeConfigurationHandler :: sid
  editorMouseMoveHandler :: "sid option"
  terminalHooks :: "hook_map option"
  terminalInstanceCreatedHandler :: "sid option"
  terminalInstanceDisposedHandler :: "sid option"

text \<open>
  \<open>None\<close> is both \<^verbatim>\<open>undefined\<close> (a field never assigned) and \<^verbatim>\<open>null\<close>; the
  source only tests these fields for truthiness or with \<^verbatim>\<open>isNullOrUndefined\<close>.

  \<open>subs\<close> lists every subscription ever made, in the order made, with a flag that is
  \<open>True\<close> until the disposable is disposed. \<open>focusOnHover s e\<close> is
  \<^verbatim>\<open>getConfiguration().contribInfo.focusOnHover\<close> of editor \<open>e\<close>, and
  \<open>terminalInstances\<close> the identifiers of \<^verbatim>\<open>_terminals.terminalInstances\<close>.
\<close>

record state =
  Instances :: "cid list"
  objs :: "controller list"
  subs :: "(listener \<times> bool) list"
  focusOnHover :: "eid \<Rightarrow> bool"
  terminalInstances :: "tid list"

definition subscribe :: "listener \<Rightarrow> state \<Rightarrow> sid \<times> state" where
  "subscribe l s = (length (subs s), s\<lparr>subs := subs s @ [(l, True)]\<rparr>)"

definition dispose_sub :: "sid \<Rightarrow> state \<Rightarrow> state" where
  "dispose_sub h s =
     (if h < length (subs s) then s\<lparr>subs := (subs s)[h := (fst (subs s ! h), False)]\<rparr> else s)"

definition upd :: "cid \<Rightarrow> (controller \<Rightarrow> controller) \<Rightarrow> state \<Rightarrow> state" where
  "upd c f s = s\<lparr>objs := (objs s)[c := f (objs s ! c)]\<rparr>"

definition thenE :: "error + 'a \<Rightarrow> ('a \<Rightarrow> error + 'b) \<Rightarrow> error + 'b" where
  "thenE r f = (case r of Inl e \<Rightarrow> Inl e | Inr x \<Rightarrow> f x)"

fun each :: "('a \<Rightarrow> state \<Rightarrow> error + state) \<Rightarrow> 'a list \<Rightarrow> state \<Rightarrow> error + state" where
  "each f [] s = Inr s"
| "each f (x # xs) s = thenE (f x s) (each f xs)"

subsection \<open>The methods of the class\<close>

text \<open>Lines 55-58.\<close>

definition handleTerminals :: "cid \<Rightarrow> state \<Rightarrow> state" where
  "handleTerminals c s =
     (let (h1, s1) = subscribe (InstanceCreatedListener c) s;
          s2 = upd c (\<lambda>obj. obj\<lparr>terminalInstanceCreatedHandler := Some h1\<rparr>) s1;
          (h2, s3) = subscribe (InstanceDisposedListener c) s2
      in upd c (\<lambda>obj. obj\<lparr>terminalInstanceDisposedHandler := Some h2\<rparr>) s3)"

text \<open>Lines 60-64. The property write on an \<^verbatim>\<open>undefined\<close> map is a TypeError.\<close>

definition onTerminalCreated :: "cid \<Rightarrow> tid \<Rightarrow> state \<Rightarrow> error + state" where
  "onTerminalCreated c t s =
     (if focusOnHover s (editor (objs s ! c)) then
        (case terminalHooks (objs s ! c) of
           None \<Rightarrow> Inl TypeError
         | Some m \<Rightarrow>
             let (h, s1) = subscribe (TerminalMouseMoveListener t) s
             in Inr (upd c (\<lambda>obj. obj\<lparr>terminalHooks := Some (m\<lparr>props := put t h (props m)\<rparr>)\<rparr>) s1))
      else Inr s)"

text \<open>
  Lines 66-71. \<^verbatim>\<open>has\<close> and \<^verbatim>\<open>delete\<close> consult the entries; the hook that is
  disposed is read as a property, and reading a property that is absent gives
  \<^verbatim>\<open>undefined\<close>, whose \<^verbatim>\<open>dispose\<close> is a TypeError.
\<close>

definition onTerminalDisposed :: "cid \<Rightarrow> tid \<Rightarrow> state \<Rightarrow> error + state" where
  "onTerminalDisposed c t s =
     (case terminalHooks (objs s ! c) of
        None \<Rightarrow> Inl TypeError
      | Some m \<Rightarrow>
          if has m t then
            (case map_of (props m) t of
               None \<Rightarrow> Inl TypeError
             | Some h \<Rightarrow>
                 Inr (upd c (\<lambda>obj. obj\<lparr>terminalHooks := Some (delete t m)\<rparr>) (dispose_sub h s)))
          else Inr s)"

text \<open>Lines 73-75.\<close>

definition manageTerminals :: "state \<Rightarrow> cid \<Rightarrow> bool" where
  "manageTerminals s c = (terminalInstanceCreatedHandler (objs s ! c) \<noteq> None)"

text \<open>Lines 82-84: the loop over the open terminals.\<close>

fun hookTerminals :: "cid \<Rightarrow> tid list \<Rightarrow> state \<Rightarrow> error + state" where
  "hookTerminals c [] s = Inr s"
| "hookTerminals c (t # ts) s =
     (case terminalHooks (objs s ! c) of
        None \<Rightarrow> Inl TypeError
      | Some m \<Rightarrow>
          let (h, s1) = subscribe (TerminalMouseMoveListener t) s
          in hookTerminals c ts
               (upd c (\<lambda>obj. obj\<lparr>terminalHooks := Some (m\<lparr>props := put t h (props m)\<rparr>)\<rparr>) s1))"

text \<open>Lines 77-87.\<close>

definition hookEvents :: "cid \<Rightarrow> state \<Rightarrow> error + state" where
  "hookEvents c s =
     (if focusOnHover s (editor (objs s ! c)) then
        let (h, s1) = subscribe (EditorMouseMoveListener (editor (objs s ! c)) c) s;
            s2 = upd c (\<lambda>obj. obj\<lparr>editorMouseMoveHandler := Some h\<rparr>) s1
        in if manageTerminals s2 c then hookTerminals c (terminalInstances s2) s2 else Inr s2
      else Inr s)"

text \<open>
  Lines 95-97 and 135-137: \<^verbatim>\<open>for (const k in hooks) hooks[k].dispose()\<close>. Every key
  visited is an own property, so the read succeeds; the properties themselves stay.
\<close>

fun disposeHooks :: "(tid \<times> sid) list \<Rightarrow> state \<Rightarrow> state" where
  "disposeHooks [] s = s"
| "disposeHooks ((k, h) # kvs) s = disposeHooks kvs (dispose_sub h s)"

text \<open>
  Lines 89-102. Over an \<^verbatim>\<open>undefined\<close> map the \<^verbatim>\<open>for ... in\<close> loop runs no
  iteration, and the call of \<^verbatim>\<open>clear\<close> after it is a TypeError.
\<close>

definition unhookEvents :: "cid \<Rightarrow> state \<Rightarrow> error + state" where
  "unhookEvents c s =
     (case editorMouseMoveHandler (objs s ! c) of
        None \<Rightarrow> Inr s
      | Some h \<Rightarrow>
          let s1 = dispose_sub h s;
              s2 = upd c (\<lambda>obj. obj\<lparr>editorMouseMoveHandler := None\<rparr>) s1
          in if manageTerminals s2 c then
               (case terminalHooks (objs s2 ! c) of
                  None \<Rightarrow> Inl TypeError
                | Some m \<Rightarrow>
                    Inr (upd c (\<lambda>obj. obj\<lparr>terminalHooks := Some (clear m)\<rparr>)
                           (disposeHooks (props m) s2)))
             else Inr s2)"

text \<open>
  Lines 117-118: \<^verbatim>\<open>indexOf\<close> answers -1 for an absent element, and
  \<^verbatim>\<open>splice(start, deleteCount)\<close> counts a negative start from the end of the array.
\<close>

fun indexOfFrom :: "nat \<Rightarrow> 'a list \<Rightarrow> 'a \<Rightarrow> int" where
  "indexOfFrom i [] x = - 1"
| "indexOfFrom i (y # ys) x = (if y = x then int i else indexOfFrom (Suc i) ys x)"

definition indexOf :: "'a list \<Rightarrow> 'a \<Rightarrow> int" where
  "indexOf xs x = indexOfFrom 0 xs x"

definition splice :: "int \<Rightarrow> int \<Rightarrow> 'a list \<Rightarrow> 'a list" where
  "splice start deleteCount xs =
     (let len = int (length xs);
          first = (if start < 0 then max (len + start) 0 else min start len);
          cnt = min (max deleteCount 0) (len - first)
      in take (nat first) xs @ drop (nat (first + cnt)) xs)"

text \<open>
  Lines 115-141: everything \<^verbatim>\<open>dispose\<close> does before its last statement. In the branch
  of line 125 the other instance receives the very map object of this one, and this one
  a new map at once, so no two controllers share a map when the method returns;
  \<^verbatim>\<open>_handleTerminals\<close>, which runs in between, does not touch the map. A map is
  therefore held by value.
\<close>

definition releaseTerminals :: "cid \<Rightarrow> state \<Rightarrow> error + state" where
  "releaseTerminals c s =
     (let s1 = dispose_sub (didChangeConfigurationHandler (objs s ! c)) s;
          idx = indexOf (Instances s1) c;
          s2 = s1\<lparr>Instances := splice idx 1 (Instances s1)\<rparr>
      in (case terminalInstanceCreatedHandler (objs s2 ! c) of
            None \<Rightarrow> Inr s2
          | Some hc \<Rightarrow>
              (let s3 = dispose_sub hc s2
               in (case terminalInstanceDisposedHandler (objs s3 ! c) of
                     None \<Rightarrow> Inl TypeError
                   | Some hd' \<Rightarrow>
                       (let s4 = dispose_sub hd' s3
                        in (case Instances s4 of
                              otherInstance # rest \<Rightarrow>
                                (let s5 = upd otherInstance
                                            (\<lambda>obj. obj\<lparr>terminalHooks := terminalHooks (objs s4 ! c)\<rparr>) s4;
                                     s6 = handleTerminals otherInstance s5
                                 in Inr (upd c (\<lambda>obj. obj\<lparr>terminalHooks := Some new_Map\<rparr>) s6))
                            | [] \<Rightarrow>
                                (case terminalHooks (objs s4 ! c) of
                                   None \<Rightarrow> Inl TypeError
                                 | Some m \<Rightarrow>
                                     Inr (upd c (\<lambda>obj. obj\<lparr>terminalHooks := Some (clear m)\<rparr>)
                                            (disposeHooks (props m) s4)))))))))"

text \<open>Lines 114-146: line 145 runs after all the rest.\<close>

definition dispose :: "cid \<Rightarrow> state \<Rightarrow> error + state" where
  "dispose c s = thenE (releaseTerminals c s) (unhookEvents c)"

text \<open>
  Lines 35-53. The new object is the next index of \<open>objs\<close>; its first field is the
  subscription of line 38.
\<close>

definition construct :: "eid \<Rightarrow> state \<Rightarrow> error + state" where
  "construct e s =
     (let c = length (objs s);
          (h, s1) = subscribe (ConfigurationListener e c) s;
          s2 = s1\<lparr>objs := objs s1 @
                 [\<lparr>editor = e, didChangeConfigurationHandler = h,
                   editorMouseMoveHandler = None, terminalHooks = None,
                   terminalInstanceCreatedHandler = None,
                   terminalInstanceDisposedHandler = None\<rparr>]\<rparr>;
          s3 = (if length (Instances s2) = 0
                then handleTerminals c (upd c (\<lambda>obj. obj\<lparr>terminalHooks := Some new_Map\<rparr>) s2)
                else s2)
      in thenE (hookEvents c s3) (\<lambda>s4. Inr (s4\<lparr>Instances := Instances s4 @ [c]\<rparr>)))"

text \<open>Lines 38-43: the listener of the configuration-change event.\<close>

record configuration_changed_event =
  contribInfo :: bool

definition onDidChangeConfiguration ::
  "configuration_changed_event \<Rightarrow> cid \<Rightarrow> state \<Rightarrow> error + state" where
  "onDidChangeConfiguration ev c s =
     (if contribInfo ev then thenE (unhookEvents c s) (hookEvents c) else Inr s)"

subsection \<open>The host firing its events\<close>

text \<open>
  Modelled from the spec: the host's emitters (section 5: every callback runs to completion
  on the one UI thread). Firing an event calls the listeners subscribed to it when the
  firing starts, in the order they subscribed. No callback of this class subscribes to or
  unsubscribes from the event it is called for.
\<close>

definition configurationListeners :: "eid \<Rightarrow> state \<Rightarrow> cid list" where
  "configurationListeners e s =
     List.map_filter
       (\<lambda>la. case fst la of
                ConfigurationListener e' c \<Rightarrow> if snd la \<and> e' = e then Some c else None
              | _ \<Rightarrow> None)
       (subs s)"

definition instanceCreatedListeners :: "state \<Rightarrow> cid list" where
  "instanceCreatedListeners s =
     List.map_filter
       (\<lambda>la. case fst la of
                InstanceCreatedListener c \<Rightarrow> if snd la then Some c else None
              | _ \<Rightarrow> None)
       (subs s)"

definition instanceDisposedListeners :: "state \<Rightarrow> cid list" where
  "instanceDisposedListeners s =
     List.map_filter
       (\<lambda>la. case fst la of
                InstanceDisposedListener c \<Rightarrow> if snd la then Some c else None
              | _ \<Rightarrow> None)
       (subs s)"

definition fireDidChangeConfiguration ::
  "eid \<Rightarrow> configuration_changed_event \<Rightarrow> state \<Rightarrow> error + state" where
  "fireDidChangeConfiguration e ev s =
     each (onDidChangeConfiguration ev) (configurationListeners e s) s"

definition fireInstanceCreated :: "tid \<Rightarrow> state \<Rightarrow> error + state" where
  "fireInstanceCreated t s = each (\<lambda>c. onTerminalCreated c t) (instanceCreatedListeners s) s"

definition fireInstanceDisposed :: "tid \<Rightarrow> state \<Rightarrow> error + state" where
  "fireInstanceDisposed t s = each (\<lambda>c. onTerminalDisposed c t) (instanceDisposedListeners s) s"

text \<open>
  Setting the flag of an editor changes its \<^verbatim>\<open>contribInfo\<close>, so the event the editor
  fires has \<^verbatim>\<open>e.contribInfo\<close> set.
\<close>

definition setFocusOnHover :: "eid \<Rightarrow> bool \<Rightarrow> state \<Rightarrow> error + state" where
  "setFocusOnHover e b s =
     fireDidChangeConfiguration e \<lparr>contribInfo = True\<rparr> (s\<lparr>focusOnHover := (focusOnHover s)(e := b)\<rparr>)"

definition terminalCreated :: "tid \<Rightarrow> state \<Rightarrow> error + state" where
  "terminalCreated t s = fireInstanceCreated t (s\<lparr>terminalInstances := terminalInstances s @ [t]\<rparr>)"

definition terminalDisposed :: "tid \<Rightarrow> state \<Rightarrow> error + state" where
  "terminalDisposed t s =
     fireInstanceDisposed t (s\<lparr>terminalInstances := filter (\<lambda>x. x \<noteq> t) (terminalInstances s)\<rparr>)"

subsection \<open>Runs of the system\<close>

datatype action =
    Create eid
  | Dispose cid
  | SetFocusOnHover eid bool
  | OtherConfigurationChange eid
  | TerminalCreated tid
  | TerminalDisposed tid

fun step :: "action \<Rightarrow> state \<Rightarrow> error + state" where
  "step (Create e) s = construct e s"
| "step (Dispose c) s = dispose c s"
| "step (SetFocusOnHover e b) s = setFocusOnHover e b s"
| "step (OtherConfigurationChange e) s = fireDidChangeConfiguration e \<lparr>contribInfo = False\<rparr> s"
| "step (TerminalCreated t) s = terminalCreated t s"
| "step (TerminalDisposed t) s = terminalDisposed t s"

definition exec :: "action list \<Rightarrow> state \<Rightarrow> error + state" where
  "exec as s = each step as s"

text \<open>The state when the class is loaded: line 21, and no controller yet.\<close>

definition initial :: "(eid \<Rightarrow> bool) \<Rightarrow> tid list \<Rightarrow> state" where
  "initial f ts = \<lparr>Instances = [], objs = [], subs = [], focusOnHover = f, terminalInstances = ts\<rparr>"

text \<open>
  The live controllers as the spec's data model defines them, without the code: the
  \<open>n\<close>-th controller constructed is object \<open>n\<close>; a controller is live from its
  construction to its disposal. \<open>liveAfter n live as\<close> lists them, in creation order, after
  the actions \<open>as\<close>, from \<open>n\<close> controllers constructed of which \<open>live\<close> are live.
  \<open>legal\<close> says that every disposal of a run is of a controller live at that moment, so
  that no controller is disposed twice.
\<close>

fun liveAfter :: "nat \<Rightarrow> cid list \<Rightarrow> action list \<Rightarrow> cid list" where
  "liveAfter n live [] = live"
| "liveAfter n live (Create e # as) = liveAfter (Suc n) (live @ [n]) as"
| "liveAfter n live (Dispose c # as) = liveAfter n (filter (\<lambda>x. x \<noteq> c) live) as"
| "liveAfter n live (_ # as) = liveAfter n live as"

fun legal :: "nat \<Rightarrow> cid list \<Rightarrow> action list \<Rightarrow> bool" where
  "legal n live [] = True"
| "legal n live (Create e # as) = legal (Suc n) (live @ [n]) as"
| "legal n live (Dispose c # as) = (c \<in> set live \<and> legal n (filter (\<lambda>x. x \<noteq> c) live) as)"
| "legal n live (_ # as) = legal n live as"

subsection \<open>The invariant\<close>

text \<open>
  \<open>subscribed xs h l\<close>: the disposable \<open>h\<close> is the subscription of listener \<open>l\<close> and has
  not been disposed. \<open>listens xs h l\<close>: it is the subscription of \<open>l\<close>, disposed or not.
\<close>

definition subscribed :: "(listener \<times> bool) list \<Rightarrow> sid \<Rightarrow> listener \<Rightarrow> bool" where
  "subscribed xs h l = (h < length xs \<and> xs ! h = (l, True))"

definition listens :: "(listener \<times> bool) list \<Rightarrow> sid \<Rightarrow> listener \<Rightarrow> bool" where
  "listens xs h l = (h < length xs \<and> fst (xs ! h) = l)"

definition hookFor :: "(listener \<times> bool) list \<Rightarrow> tid \<times> sid \<Rightarrow> bool" where
  "hookFor xs kv = listens xs (snd kv) (TerminalMouseMoveListener (fst kv))"

text \<open>
  What the fields of a live controller \<open>c\<close> refer to: its subscriptions are active and
  are its own, and a controller with the handler of line 56 has the handler of line 57
  and a map, whose keys name the terminals the hooks are for. No entry is ever set.
\<close>

definition fields_ok :: "(listener \<times> bool) list \<Rightarrow> cid \<Rightarrow> controller \<Rightarrow> bool" where
  "fields_ok xs c obj =
     (subscribed xs (didChangeConfigurationHandler obj) (ConfigurationListener (editor obj) c) \<and>
      (case editorMouseMoveHandler obj of
         None \<Rightarrow> True
       | Some h \<Rightarrow> subscribed xs h (EditorMouseMoveListener (editor obj) c)) \<and>
      (case terminalInstanceCreatedHandler obj of
         None \<Rightarrow> terminalInstanceDisposedHandler obj = None
       | Some h \<Rightarrow>
           subscribed xs h (InstanceCreatedListener c) \<and>
           (case terminalInstanceDisposedHandler obj of
              None \<Rightarrow> False
            | Some h' \<Rightarrow> subscribed xs h' (InstanceDisposedListener c)) \<and>
           (case terminalHooks obj of
              None \<Rightarrow> False
            | Some m \<Rightarrow> entries m = [] \<and> list_all (hookFor xs) (props m))))"

text \<open>A controller listens to the mouse of its editor exactly when the flag is on.\<close>

definition synced :: "state \<Rightarrow> cid \<Rightarrow> bool" where
  "synced s c =
     ((editorMouseMoveHandler (objs s ! c) \<noteq> None) = focusOnHover s (editor (objs s ! c)))"

text \<open>
  Whose field holds a subscription that is still active: a live controller's, the field
  the listener belongs to. (A per-terminal hook may be active and held by no map: the
  loop of lines 82-84 and line 62 overwrite a property without disposing the old hook.)
\<close>

fun owner_ok :: "cid list \<Rightarrow> controller list \<Rightarrow> sid \<Rightarrow> listener \<Rightarrow> bool" where
  "owner_ok live os i (ConfigurationListener e c) =
     (c \<in> set live \<and> didChangeConfigurationHandler (os ! c) = i)"
| "owner_ok live os i (EditorMouseMoveListener e c) =
     (c \<in> set live \<and> editorMouseMoveHandler (os ! c) = Some i)"
| "owner_ok live os i (InstanceCreatedListener c) =
     (c \<in> set live \<and> terminalInstanceCreatedHandler (os ! c) = Some i)"
| "owner_ok live os i (InstanceDisposedListener c) =
     (c \<in> set live \<and> terminalInstanceDisposedHandler (os ! c) = Some i)"
| "owner_ok live os i (TerminalMouseMoveListener t) = True"

definition subs_ok :: "state \<Rightarrow> bool" where
  "subs_ok s =
     (\<forall>i < length (subs s).
        snd (subs s ! i) \<longrightarrow> owner_ok (Instances s) (objs s) i (fst (subs s ! i)))"

text \<open>
  \<open>consistent\<close> holds between any two callbacks; \<open>invariant\<close> holds between any two actions
  of a run (while a configuration-change event is being delivered, the controllers not yet
  called are out of step with the flag).
\<close>

definition consistent :: "state \<Rightarrow> bool" where
  "consistent s =
     (distinct (Instances s) \<and>
      (\<forall>c \<in> set (Instances s).
         c < length (objs s) \<and> fields_ok (subs s) c (objs s ! c) \<and>
         (manageTerminals s c \<longleftrightarrow> c = hd (Instances s))) \<and>
      subs_ok s)"

definition invariant :: "state \<Rightarrow> bool" where
  "invariant s = (consistent s \<and> (\<forall>c \<in> set (Instances s). synced s c))"

text \<open>The hooks a map is left with when the loop of lines 82-84 has run.\<close>

fun putAll :: "tid list \<Rightarrow> sid \<Rightarrow> (tid \<times> sid) list \<Rightarrow> (tid \<times> sid) list" where
  "putAll [] n kvs = kvs"
| "putAll (t # ts) n kvs = putAll ts (Suc n) (put t n kvs)"



subsection \<open>Auxiliary notions for the proofs\<close>

text \<open>The list of subscriptions with one of them disposed.\<close>

definition off :: "sid \<Rightarrow> (listener \<times> bool) list \<Rightarrow> (listener \<times> bool) list" where
  "off h xs = xs[h := (fst (xs ! h), False)]"

text \<open>The controller a listener calls into; a per-terminal hook calls into none.\<close>

fun owner :: "listener \<Rightarrow> cid option" where
  "owner (ConfigurationListener e c) = Some c"
| "owner (EditorMouseMoveListener e c) = Some c"
| "owner (InstanceCreatedListener c) = Some c"
| "owner (InstanceDisposedListener c) = Some c"
| "owner (TerminalMouseMoveListener t) = None"

text \<open>The disposables the handler fields of a controller hold.\<close>

definition held :: "controller \<Rightarrow> sid set" where
  "held obj = insert (didChangeConfigurationHandler obj)
     (set_option (editorMouseMoveHandler obj) \<union> set_option (terminalInstanceCreatedHandler obj) \<union>
      set_option (terminalInstanceDisposedHandler obj))"

definition field_of :: "listener \<Rightarrow> controller \<Rightarrow> sid option" where
  "field_of l obj =
     (case l of
        ConfigurationListener e c \<Rightarrow> Some (didChangeConfigurationHandler obj)
      | EditorMouseMoveListener e c \<Rightarrow> editorMouseMoveHandler obj
      | InstanceCreatedListener c \<Rightarrow> terminalInstanceCreatedHandler obj
      | InstanceDisposedListener c \<Rightarrow> terminalInstanceDisposedHandler obj
      | TerminalMouseMoveListener t \<Rightarrow> None)"

fun offs :: "sid list \<Rightarrow> (listener \<times> bool) list \<Rightarrow> (listener \<times> bool) list" where
  "offs [] xs = xs"
| "offs (h # hs) xs = offs hs (off h xs)"

text \<open>The subscriptions that \<open>unhookEvents\<close> disposes.\<close>

fun hooksOf :: "hook_map option \<Rightarrow> sid list" where
  "hooksOf None = []"
| "hooksOf (Some m) = map snd (props m)"

fun unhooksOf :: "sid option \<Rightarrow> bool \<Rightarrow> hook_map option \<Rightarrow> sid list" where
  "unhooksOf None b m = []"
| "unhooksOf (Some h) True m = h # hooksOf m"
| "unhooksOf (Some h) False m = [h]"

definition unhooks :: "state \<Rightarrow> cid \<Rightarrow> sid list" where
  "unhooks s c =
     unhooksOf (editorMouseMoveHandler (objs s ! c)) (manageTerminals s c) (terminalHooks (objs s ! c))"

definition unhooked :: "cid \<Rightarrow> state \<Rightarrow> state" where
  "unhooked c s =
     s\<lparr>subs := offs (unhooks s c) (subs s),
       objs := (objs s)[c := (objs s ! c)\<lparr>editorMouseMoveHandler := None\<rparr>]\<rparr>"

text \<open>The state \<open>hookEvents\<close> returns.\<close>

definition hooked :: "cid \<Rightarrow> state \<Rightarrow> state" where
  "hooked c s =
     (let obj = objs s ! c; n = length (subs s);
          ts = (if manageTerminals s c then terminalInstances s else [])
      in if focusOnHover s (editor obj) then
           s\<lparr>subs := subs s @ (EditorMouseMoveListener (editor obj) c, True) #
                                map (\<lambda>t. (TerminalMouseMoveListener t, True)) ts,
             objs := (objs s)[c := obj\<lparr>editorMouseMoveHandler := Some n,
                        terminalHooks := map_option (\<lambda>m. m\<lparr>props := putAll ts (Suc n) (props m)\<rparr>)
                                           (terminalHooks obj)\<rparr>]\<rparr>
         else s)"

text \<open>The state \<open>onTerminalCreated\<close> returns.\<close>

definition withHook :: "cid \<Rightarrow> tid \<Rightarrow> state \<Rightarrow> state" where
  "withHook c t s =
     (if focusOnHover s (editor (objs s ! c)) then
        s\<lparr>subs := subs s @ [(TerminalMouseMoveListener t, True)],
          objs := (objs s)[c := (objs s ! c)\<lparr>terminalHooks :=
                     map_option (\<lambda>m. m\<lparr>props := put t (length (subs s)) (props m)\<rparr>)
                       (terminalHooks (objs s ! c))\<rparr>]\<rparr>
      else s)"

text \<open>The state the constructor leaves before the call of \<open>hookEvents\<close> in line 51, with
  the new controller already in the registry (line 52).\<close>

definition registered :: "eid \<Rightarrow> state \<Rightarrow> state" where
  "registered e s =
     (let c = length (objs s); n = length (subs s)
      in if Instances s = [] then
           s\<lparr>Instances := [c],
             subs := subs s @ [(ConfigurationListener e c, True), (InstanceCreatedListener c, True),
                               (InstanceDisposedListener c, True)],
             objs := objs s @
               [\<lparr>editor = e, didChangeConfigurationHandler = n,
                 editorMouseMoveHandler = None, terminalHooks = Some new_Map,
                 terminalInstanceCreatedHandler = Some (Suc n),
                 terminalInstanceDisposedHandler = Some (Suc (Suc n))\<rparr>]\<rparr>
         else
           s\<lparr>Instances := Instances s @ [c],
             subs := subs s @ [(ConfigurationListener e c, True)],
             objs := objs s @
               [\<lparr>editor = e, didChangeConfigurationHandler = n,
                 editorMouseMoveHandler = None, terminalHooks = None,
                 terminalInstanceCreatedHandler = None,
                 terminalInstanceDisposedHandler = None\<rparr>]\<rparr>)"

fun optList :: "'a option \<Rightarrow> 'a list" where
  "optList None = []"
| "optList (Some x) = [x]"

text \<open>The disposables the handler fields of a controller hold, as a list.\<close>

definition handlersOf :: "controller \<Rightarrow> sid list" where
  "handlersOf obj =
     didChangeConfigurationHandler obj # optList (editorMouseMoveHandler obj) @
     optList (terminalInstanceCreatedHandler obj) @ optList (terminalInstanceDisposedHandler obj)"

text \<open>The state \<open>dispose\<close> returns for a live controller.\<close>

fun afterDispose' ::
  "cid \<Rightarrow> controller \<Rightarrow> sid option \<Rightarrow> cid list \<Rightarrow> state \<Rightarrow> state" where
  "afterDispose' c obj None rest s =
     s\<lparr>Instances := rest, subs := offs (handlersOf obj) (subs s),
       objs := (objs s)[c := obj\<lparr>editorMouseMoveHandler := None\<rparr>]\<rparr>"
| "afterDispose' c obj (Some hc) [] s =
     s\<lparr>Instances := [], subs := offs (handlersOf obj @ hooksOf (terminalHooks obj)) (subs s),
       objs := (objs s)[c := obj\<lparr>editorMouseMoveHandler := None\<rparr>]\<rparr>"
| "afterDispose' c obj (Some hc) (otherInstance # rest) s =
     s\<lparr>Instances := otherInstance # rest,
       subs := offs (handlersOf obj) (subs s) @
               [(InstanceCreatedListener otherInstance, True),
                (InstanceDisposedListener otherInstance, True)],
       objs := (objs s)
         [otherInstance := (objs s ! otherInstance)
            \<lparr>terminalHooks := terminalHooks obj,
              terminalInstanceCreatedHandler := Some (length (subs s)),
              terminalInstanceDisposedHandler := Some (Suc (length (subs s)))\<rparr>,
          c := obj\<lparr>editorMouseMoveHandler := None, terminalHooks := Some new_Map\<rparr>]\<rparr>"

definition afterDispose :: "cid \<Rightarrow> state \<Rightarrow> state" where
  "afterDispose c s =
     afterDispose' c (objs s ! c) (terminalInstanceCreatedHandler (objs s ! c))
       (filter (\<lambda>d. d \<noteq> c) (Instances s)) s"

text \<open>The configuration in which the flag is on for the editors listed.\<close>

definition flagOn :: "eid list \<Rightarrow> eid \<Rightarrow> bool" where
  "flagOn es e = (e \<in> set es)"

text \<open>The listeners that are per-terminal hooks.\<close>

fun isHook :: "listener \<Rightarrow> bool" where
  "isHook (TerminalMouseMoveListener t) = True"
| "isHook _ = False"

text \<open>
  An example state: two controllers, on editors 0 and 1 with the flag on, created while
  terminal 5 is open. Controller 0 is the terminal manager and holds the hook of
  terminal 5, subscription 4.
\<close>

definition twoControllers :: state where
  "twoControllers =
     \<lparr>Instances = [0, 1],
      objs = [\<lparr>editor = 0, didChangeConfigurationHandler = 0, editorMouseMoveHandler = Some 3,
               terminalHooks = Some \<lparr>entries = [], props = [(5, 4)]\<rparr>,
               terminalInstanceCreatedHandler = Some 1, terminalInstanceDisposedHandler = Some 2\<rparr>,
              \<lparr>editor = 1, didChangeConfigurationHandler = 5, editorMouseMoveHandler = Some 6,
               terminalHooks = None,
               terminalInstanceCreatedHandler = None, terminalInstanceDisposedHandler = None\<rparr>],
      subs = [(ConfigurationListener 0 0, True), (InstanceCreatedListener 0, True),
              (InstanceDisposedListener 0, True), (EditorMouseMoveListener 0 0, True),
              (TerminalMouseMoveListener 5, True), (ConfigurationListener 1 1, True),
              (EditorMouseMoveListener 1 1, True)],
      focusOnHover = flagOn [0, 1], terminalInstances = [5]\<rparr>"

text \<open>
  An example state: one controller, the terminal manager, on editor 0 with the flag off,
  created while terminal 5 is open.
\<close>

definition quietManager :: state where
  "quietManager =
     \<lparr>Instances = [0],
      objs = [\<lparr>editor = 0, didChangeConfigurationHandler = 0, editorMouseMoveHandler = None,
               terminalHooks = Some \<lparr>entries = [], props = []\<rparr>,
               terminalInstanceCreatedHandler = Some 1, terminalInstanceDisposedHandler = Some 2\<rparr>],
      subs = [(ConfigurationListener 0 0, True), (InstanceCreatedListener 0, True),
              (InstanceDisposedListener 0, True)],
      focusOnHover = flagOn [], terminalInstances = [5]\<rparr>"


text \<open>
  A controller object is \<open>equipped\<close> when, if its first terminal-service handler is set,
  its second is and its map is: what lines 45-51 and 129-130 give an instance when they
  make it the terminal manager, and no line takes away.
\<close>

definition equipped :: "controller \<Rightarrow> bool" where
  "equipped obj =
     (terminalInstanceCreatedHandler obj \<noteq> None \<longrightarrow>
        terminalInstanceDisposedHandler obj \<noteq> None \<and> terminalHooks obj \<noteq> None)"

definition all_equipped :: "state \<Rightarrow> bool" where
  "all_equipped s = list_all equipped (objs s)"

section \<open>Basic facts\<close>

subsection \<open>The array operations of lines 117-118\<close>

lemma indexOfFrom_absent: "x \<notin> set xs \<Longrightarrow> indexOfFrom i xs x = - 1"
  by (induction xs arbitrary: i) auto

lemma indexOfFrom_present:
  "x \<in> set xs \<Longrightarrow> indexOfFrom (Suc i) xs x = 1 + indexOfFrom i xs x"
  by (induction xs arbitrary: i) auto

lemma indexOf_absent: "x \<notin> set xs \<Longrightarrow> indexOf xs x = - 1"
  by (simp add: indexOf_def indexOfFrom_absent)

lemma indexOf_Cons:
  "indexOf (y # ys) x =
     (if y = x then 0 else if x \<in> set ys then 1 + indexOf ys x else - 1)"
  by (simp add: indexOf_def indexOfFrom_present indexOfFrom_absent)

lemma indexOf_range: "x \<in> set xs \<Longrightarrow> 0 \<le> indexOf xs x \<and> indexOf xs x < int (length xs)"
  by (induction xs) (auto simp: indexOf_Cons)

lemma splice_last: "xs \<noteq> [] \<Longrightarrow> splice (- 1) 1 xs = butlast xs"
proof -
  assume "xs \<noteq> []"
  then have "nat (int (length xs) - 1) = length xs - 1" "length xs - 1 < length xs"
    by (cases xs; simp)+
  then show ?thesis
    by (simp add: splice_def Let_def butlast_conv_take max_def min_def)
qed

lemma splice_Suc:
  "0 \<le> k \<Longrightarrow> k < int (length ys) \<Longrightarrow> splice (1 + k) 1 (y # ys) = y # splice k 1 ys"
  by (simp add: splice_def Let_def max_def min_def nat_add_distrib)

lemma splice_indexOf: "x \<in> set xs \<Longrightarrow> splice (indexOf xs x) 1 xs = remove1 x xs"
proof (induction xs)
  case Nil
  then show ?case by simp
next
  case (Cons y ys)
  show ?case
  proof (cases "y = x")
    case True
    then show ?thesis by (simp add: indexOf_Cons splice_def)
  next
    case False
    with Cons.prems have "x \<in> set ys" by simp
    with False Cons.IH indexOf_range [of x ys] show ?thesis
      by (simp add: indexOf_Cons splice_Suc)
  qed
qed

lemma splice_indexOf_distinct:
  "distinct xs \<Longrightarrow> x \<in> set xs \<Longrightarrow> splice (indexOf xs x) 1 xs = filter (\<lambda>y. y \<noteq> x) xs"
proof -
  assume d: "distinct xs" and x: "x \<in> set xs"
  from d have "remove1 x xs = filter (\<lambda>y. y \<noteq> x) xs"
    by (induction xs) (auto simp: remove1_idem)
  with x show ?thesis by (simp add: splice_indexOf)
qed

subsection \<open>Subscriptions, objects and hook maps\<close>

lemma dispose_sub_fields [simp]:
  "Instances (dispose_sub h s) = Instances s"
  "objs (dispose_sub h s) = objs s"
  "focusOnHover (dispose_sub h s) = focusOnHover s"
  "terminalInstances (dispose_sub h s) = terminalInstances s"
  "length (subs (dispose_sub h s)) = length (subs s)"
  by (simp_all add: dispose_sub_def)

lemma subs_dispose_sub: "subs (dispose_sub h s) = (subs s)[h := (fst (subs s ! h), False)]"
  by (simp add: dispose_sub_def list_update_beyond)

lemma dispose_sub_nth:
  "i < length (subs s) \<Longrightarrow>
   subs (dispose_sub h s) ! i = (fst (subs s ! i), snd (subs s ! i) \<and> i \<noteq> h)"
  by (auto simp: dispose_sub_def nth_list_update)

lemma upd_fields [simp]:
  "Instances (upd c f s) = Instances s"
  "subs (upd c f s) = subs s"
  "focusOnHover (upd c f s) = focusOnHover s"
  "terminalInstances (upd c f s) = terminalInstances s"
  "length (objs (upd c f s)) = length (objs s)"
  by (simp_all add: upd_def)

lemma upd_nth:
  "d < length (objs s) \<Longrightarrow> objs (upd c f s) ! d = (if d = c then f (objs s ! c) else objs s ! d)"
  by (simp add: upd_def nth_list_update)

lemma disposeHooks_fields [simp]:
  "Instances (disposeHooks kvs s) = Instances s"
  "objs (disposeHooks kvs s) = objs s"
  "focusOnHover (disposeHooks kvs s) = focusOnHover s"
  "terminalInstances (disposeHooks kvs s) = terminalInstances s"
  "length (subs (disposeHooks kvs s)) = length (subs s)"
  by (induction kvs s rule: disposeHooks.induct; simp)+

lemma disposeHooks_nth:
  "i < length (subs s) \<Longrightarrow>
   subs (disposeHooks kvs s) ! i = (fst (subs s ! i), snd (subs s ! i) \<and> i \<notin> snd ` set kvs)"
  by (induction kvs s rule: disposeHooks.induct) (auto simp: dispose_sub_nth)

lemma put_lookup: "map_of (put k v kvs) = (map_of kvs)(k \<mapsto> v)"
  by (induction kvs) auto

lemma set_put: "set (put k v kvs) \<subseteq> insert (k, v) (set kvs)"
  by (induction kvs) (auto split: if_splits)

lemma set_putAll: "set (putAll ts n kvs) \<subseteq> set kvs \<union> {(ts ! i, n + i) | i. i < length ts}"
proof (induction ts arbitrary: n kvs)
  case Nil
  then show ?case by simp
next
  case (Cons t ts)
  have "set (putAll ts (Suc n) (put t n kvs)) \<subseteq>
        set (put t n kvs) \<union> {(ts ! i, Suc n + i) | i. i < length ts}"
    by (rule Cons.IH)
  also have "\<dots> \<subseteq> insert (t, n) (set kvs) \<union> {(ts ! i, Suc n + i) | i. i < length ts}"
    using set_put [of t n kvs] by auto
  also have "\<dots> \<subseteq> set kvs \<union> {((t # ts) ! i, n + i) | i. i < length (t # ts)}"
  proof -
    have "(t, n) \<in> {((t # ts) ! i, n + i) | i. i < length (t # ts)}" by force
    moreover have "{(ts ! i, Suc n + i) | i. i < length ts} \<subseteq>
                   {((t # ts) ! i, n + i) | i. i < length (t # ts)}"
    proof
      fix x assume "x \<in> {(ts ! i, Suc n + i) | i. i < length ts}"
      then obtain i where "x = (ts ! i, Suc n + i)" "i < length ts" by blast
      then have "x = ((t # ts) ! Suc i, n + Suc i) \<and> Suc i < length (t # ts)" by simp
      then show "x \<in> {((t # ts) ! i, n + i) | i. i < length (t # ts)}" by blast
    qed
    ultimately show ?thesis by blast
  qed
  finally show ?case by simp
qed

lemma map_of_putAll_other: "t \<notin> set ts \<Longrightarrow> map_of (putAll ts n kvs) t = map_of kvs t"
  by (induction ts arbitrary: n kvs) (auto simp: put_lookup)


lemma hookTerminals_eq:
  "c < length (objs s) \<Longrightarrow> terminalHooks (objs s ! c) = Some m \<Longrightarrow>
   hookTerminals c ts s =
     Inr (s\<lparr>subs := subs s @ map (\<lambda>t. (TerminalMouseMoveListener t, True)) ts,
            objs := (objs s)[c := (objs s ! c)\<lparr>terminalHooks :=
                       Some (m\<lparr>props := putAll ts (length (subs s)) (props m)\<rparr>)\<rparr>]\<rparr>)"
proof (induction ts arbitrary: s m)
  case Nil
  then have "(objs s ! c)\<lparr>terminalHooks := Some m\<rparr> = objs s ! c"
    by (cases "objs s ! c") simp
  then show ?case by simp
next
  case (Cons t ts)
  then show ?case by (simp add: subscribe_def upd_def)
qed

lemma handleTerminals_eq:
  "c < length (objs s) \<Longrightarrow>
   handleTerminals c s =
     s\<lparr>subs := subs s @ [(InstanceCreatedListener c, True), (InstanceDisposedListener c, True)],
       objs := (objs s)[c := (objs s ! c)\<lparr>terminalInstanceCreatedHandler := Some (length (subs s)),
                                          terminalInstanceDisposedHandler := Some (Suc (length (subs s)))\<rparr>]\<rparr>"
  by (simp add: handleTerminals_def subscribe_def upd_def)

lemma unhookEvents_Instances:
  assumes "c < length (objs s)"
    and "terminalInstanceCreatedHandler (objs s ! c) \<noteq> None \<longrightarrow> terminalHooks (objs s ! c) \<noteq> None"
  shows "\<exists>s'. unhookEvents c s = Inr s' \<and> Instances s' = Instances s"
  using assms
  by (auto simp: unhookEvents_def Let_def manageTerminals_def upd_nth split: option.splits)

text \<open>The definitions a concrete run is evaluated with.\<close>

lemmas run_defs =
  exec_def initial_def construct_def subscribe_def upd_def handleTerminals_def hookEvents_def
  thenE_def manageTerminals_def new_Map_def dispose_def releaseTerminals_def dispose_sub_def
  indexOf_def splice_def unhookEvents_def setFocusOnHover_def fireDidChangeConfiguration_def
  configurationListeners_def instanceCreatedListeners_def instanceDisposedListeners_def
  fireInstanceCreated_def fireInstanceDisposed_def terminalCreated_def terminalDisposed_def
  onDidChangeConfiguration_def onTerminalCreated_def onTerminalDisposed_def
  clear_def delete_def has_def Let_def

subsection \<open>Lines 117-118 for an instance that is not in the registry\<close>

text \<open>
  Lines 117-118 for an instance that is not a member of the registry, the registry not
  being empty: \<^verbatim>\<open>indexOf\<close> answers -1 and \<^verbatim>\<open>splice(-1, 1)\<close> removes the last
  element of the registry, which is not the instance being disposed. The hypothesis on the
  fields (an instance that was once the terminal manager has its second handler and its
  map) excludes the TypeError of lines 123 and 139.
\<close>

lemma dispose_absent_butlast:
  assumes "c \<notin> set (Instances s)" and "Instances s \<noteq> []" and "c < length (objs s)"
    and "terminalInstanceCreatedHandler (objs s ! c) \<noteq> None \<longrightarrow>
         terminalInstanceDisposedHandler (objs s ! c) \<noteq> None \<and> terminalHooks (objs s ! c) \<noteq> None"
  shows "\<exists>s'. dispose c s = Inr s' \<and> Instances s' = butlast (Instances s) \<and>
              last (Instances s) \<noteq> c"
proof -
  from assms(1,2) have ne: "last (Instances s) \<noteq> c"
    using last_in_set by metis
  let ?s1 = "dispose_sub (didChangeConfigurationHandler (objs s ! c)) s"
  let ?s2 = "?s1\<lparr>Instances := splice (indexOf (Instances ?s1) c) 1 (Instances ?s1)\<rparr>"
  have I2: "Instances ?s2 = butlast (Instances s)"
    using assms(1,2) by (simp add: indexOf_absent splice_last)
  have "\<exists>s3. releaseTerminals c s = Inr s3 \<and> Instances s3 = butlast (Instances s) \<and>
          c < length (objs s3) \<and>
          (terminalInstanceCreatedHandler (objs s3 ! c) \<noteq> None \<longrightarrow> terminalHooks (objs s3 ! c) \<noteq> None)"
  proof (cases "terminalInstanceCreatedHandler (objs s ! c)")
    case None
    then show ?thesis using I2 assms(3) by (simp add: releaseTerminals_def Let_def)
  next
    case (Some hc)
    with assms(4) obtain hd' m where
      f: "terminalInstanceDisposedHandler (objs s ! c) = Some hd'" "terminalHooks (objs s ! c) = Some m"
      by auto
    show ?thesis
    proof (cases "butlast (Instances s)")
      case Nil
      with Some f I2 assms(3) show ?thesis
        by (simp add: releaseTerminals_def Let_def upd_nth)
    next
      case (Cons other rest)
      with Some f I2 assms(3) show ?thesis
        by (simp add: releaseTerminals_def Let_def upd_nth handleTerminals_def subscribe_def)
    qed
  qed
  then obtain s3 where s3: "releaseTerminals c s = Inr s3" "Instances s3 = butlast (Instances s)"
    "c < length (objs s3)"
    "terminalInstanceCreatedHandler (objs s3 ! c) \<noteq> None \<longrightarrow> terminalHooks (objs s3 ! c) \<noteq> None"
    by blast
  from unhookEvents_Instances [OF s3(3,4)] obtain s' where
    "unhookEvents c s3 = Inr s'" "Instances s' = Instances s3" by blast
  with s3 ne show ?thesis by (simp add: dispose_def thenE_def)
qed

subsection \<open>Active subscriptions\<close>

lemma subs_dispose_sub_off: "subs (dispose_sub h s) = off h (subs s)"
  by (simp add: subs_dispose_sub off_def)

lemma subscribed_inj: "subscribed xs h l \<Longrightarrow> subscribed xs h l' \<Longrightarrow> l = l'"
  by (simp add: subscribed_def)

lemma subscribed_listens: "subscribed xs h l \<Longrightarrow> listens xs h l"
  by (simp add: subscribed_def listens_def)

lemma listens_inj: "listens xs h l \<Longrightarrow> listens xs h l' \<Longrightarrow> l = l'"
  by (auto simp: listens_def)

lemma subscribed_append [simp]:
  "subscribed (xs @ ys) h l \<longleftrightarrow> subscribed xs h l \<or> (length xs \<le> h \<and> subscribed ys (h - length xs) l)"
  by (auto simp: subscribed_def nth_append)

lemma listens_append [simp]:
  "listens (xs @ ys) h l \<longleftrightarrow> listens xs h l \<or> (length xs \<le> h \<and> listens ys (h - length xs) l)"
  by (auto simp: listens_def nth_append)

lemma subscribed_Cons [simp]:
  "subscribed (x # xs) h l \<longleftrightarrow> (h = 0 \<and> x = (l, True)) \<or> (\<exists>k. h = Suc k \<and> subscribed xs k l)"
  by (cases h) (auto simp: subscribed_def)

lemma listens_Cons [simp]:
  "listens (x # xs) h l \<longleftrightarrow> (h = 0 \<and> fst x = l) \<or> (\<exists>k. h = Suc k \<and> listens xs k l)"
  by (cases h) (auto simp: listens_def)

lemma subscribed_Nil [simp]: "\<not> subscribed [] h l"
  by (simp add: subscribed_def)

lemma listens_Nil [simp]: "\<not> listens [] h l"
  by (simp add: listens_def)

lemma subscribed_off [simp]: "subscribed (off i xs) h l \<longleftrightarrow> subscribed xs h l \<and> h \<noteq> i"
  by (cases "h = i") (auto simp: subscribed_def off_def)

lemma listens_off [simp]: "listens (off i xs) h l \<longleftrightarrow> listens xs h l"
  by (cases "h = i") (auto simp: listens_def off_def)

lemma length_off [simp]: "length (off i xs) = length xs"
  by (simp add: off_def)

lemma subscribed_disposeHooks [simp]:
  "subscribed (subs (disposeHooks kvs s)) h l \<longleftrightarrow> subscribed (subs s) h l \<and> h \<notin> snd ` set kvs"
  by (induction kvs s rule: disposeHooks.induct) (auto simp: subs_dispose_sub_off)

lemma listens_disposeHooks [simp]:
  "listens (subs (disposeHooks kvs s)) h l \<longleftrightarrow> listens (subs s) h l"
  by (induction kvs s rule: disposeHooks.induct) (auto simp: subs_dispose_sub_off)

lemma subscribed_hooks [simp]:
  "subscribed (map (\<lambda>t. (TerminalMouseMoveListener t, True)) ts) h l \<longleftrightarrow>
     h < length ts \<and> l = TerminalMouseMoveListener (ts ! h)"
  by (auto simp: subscribed_def)

lemma listens_hooks [simp]:
  "listens (map (\<lambda>t. (TerminalMouseMoveListener t, True)) ts) h l \<longleftrightarrow>
     h < length ts \<and> l = TerminalMouseMoveListener (ts ! h)"
  by (auto simp: listens_def)

lemma subs_okI:
  "(\<And>i l. subscribed (subs s) i l \<Longrightarrow> owner_ok (Instances s) (objs s) i l) \<Longrightarrow> subs_ok s"
  unfolding subs_ok_def subscribed_def
  by (metis prod.collapse)

lemma subs_okD:
  "subs_ok s \<Longrightarrow> subscribed (subs s) i l \<Longrightarrow> owner_ok (Instances s) (objs s) i l"
  unfolding subs_ok_def subscribed_def by fastforce

lemma held_owner:
  "fields_ok xs c obj \<Longrightarrow> h \<in> held obj \<Longrightarrow> \<exists>l. subscribed xs h l \<and> owner l = Some c"
  by (auto simp: fields_ok_def held_def split: option.splits)

lemma fields_ok_off:
  "fields_ok xs c obj \<Longrightarrow> h \<notin> held obj \<Longrightarrow> fields_ok (off h xs) c obj"
  by (auto simp: fields_ok_def held_def hookFor_def list_all_iff split: option.splits)

lemma fields_ok_off_other:
  "fields_ok xs c obj \<Longrightarrow> subscribed xs h l \<Longrightarrow> owner l \<noteq> Some c \<Longrightarrow> fields_ok (off h xs) c obj"
  using held_owner subscribed_inj fields_ok_off by metis

lemma fields_ok_off_hook:
  "fields_ok xs c obj \<Longrightarrow> listens xs h (TerminalMouseMoveListener t) \<Longrightarrow> fields_ok (off h xs) c obj"
proof (rule fields_ok_off)
  assume f: "fields_ok xs c obj" and l: "listens xs h (TerminalMouseMoveListener t)"
  show "h \<notin> held obj"
  proof
    assume "h \<in> held obj"
    with f obtain l' where "subscribed xs h l'" "owner l' = Some c" using held_owner by blast
    with l show False using listens_inj subscribed_listens by fastforce
  qed
qed

lemma fields_ok_append: "fields_ok xs c obj \<Longrightarrow> fields_ok (xs @ ys) c obj"
  by (auto simp: fields_ok_def hookFor_def list_all_iff split: option.splits)

lemma owner_ok_iff:
  "owner_ok live os i l \<longleftrightarrow>
     (case owner l of None \<Rightarrow> True | Some c \<Rightarrow> c \<in> set live \<and> field_of l (os ! c) = Some i)"
  by (cases l) (auto simp: field_of_def)

lemma subscribed_offs [simp]: "subscribed (offs hs xs) i l \<longleftrightarrow> subscribed xs i l \<and> i \<notin> set hs"
  by (induction hs arbitrary: xs) auto

lemma listens_offs [simp]: "listens (offs hs xs) i l \<longleftrightarrow> listens xs i l"
  by (induction hs arbitrary: xs) auto

lemma length_offs [simp]: "length (offs hs xs) = length xs"
  by (induction hs arbitrary: xs) auto

lemma subs_disposeHooks: "subs (disposeHooks kvs s) = offs (map snd kvs) (subs s)"
  by (induction kvs s rule: disposeHooks.induct) (auto simp: subs_dispose_sub_off)

lemma disposeHooks_eq: "disposeHooks kvs s = s\<lparr>subs := offs (map snd kvs) (subs s)\<rparr>"
  by (induction kvs s rule: disposeHooks.induct) (auto simp: dispose_sub_def off_def list_update_beyond)

lemma dispose_sub_eq: "dispose_sub h s = s\<lparr>subs := off h (subs s)\<rparr>"
  by (auto simp: dispose_sub_def off_def list_update_beyond)

lemma consistentI:
  assumes "distinct (Instances s)"
    and "\<And>c. c \<in> set (Instances s) \<Longrightarrow> c < length (objs s)"
    and "\<And>c. c \<in> set (Instances s) \<Longrightarrow> fields_ok (subs s) c (objs s ! c)"
    and "\<And>c. c \<in> set (Instances s) \<Longrightarrow> manageTerminals s c \<longleftrightarrow> c = hd (Instances s)"
    and "\<And>i l. subscribed (subs s) i l \<Longrightarrow> owner_ok (Instances s) (objs s) i l"
  shows "consistent s"
  unfolding consistent_def using assms subs_okI by blast

lemma consistent_distinct: "consistent s \<Longrightarrow> distinct (Instances s)"
  by (simp add: consistent_def)

lemma consistent_bound: "consistent s \<Longrightarrow> c \<in> set (Instances s) \<Longrightarrow> c < length (objs s)"
  by (simp add: consistent_def)

lemma consistent_fields:
  "consistent s \<Longrightarrow> c \<in> set (Instances s) \<Longrightarrow> fields_ok (subs s) c (objs s ! c)"
  by (simp add: consistent_def)

lemma consistent_manager:
  "consistent s \<Longrightarrow> c \<in> set (Instances s) \<Longrightarrow> manageTerminals s c \<longleftrightarrow> c = hd (Instances s)"
  by (simp add: consistent_def)

lemma consistent_owner:
  "consistent s \<Longrightarrow> subscribed (subs s) i l \<Longrightarrow> owner_ok (Instances s) (objs s) i l"
  using subs_okD by (simp add: consistent_def)

lemma hooksOf_mem: "h \<in> set (hooksOf m) \<longleftrightarrow> (\<exists>m'. m = Some m' \<and> h \<in> snd ` set (props m'))"
  by (cases m) auto

lemma unhooksOf_mem:
  "h \<in> set (unhooksOf x b m) \<longleftrightarrow> x \<noteq> None \<and> (x = Some h \<or> (b \<and> h \<in> set (hooksOf m)))"
  by (cases x; cases b) auto

lemma unhooks_mem:
  "h \<in> set (unhooks s c) \<longleftrightarrow>
     editorMouseMoveHandler (objs s ! c) \<noteq> None \<and>
     (editorMouseMoveHandler (objs s ! c) = Some h \<or>
      (manageTerminals s c \<and> (\<exists>m. terminalHooks (objs s ! c) = Some m \<and> h \<in> snd ` set (props m))))"
  by (simp add: unhooks_def unhooksOf_mem hooksOf_mem)

lemma unhookEvents_eq:
  assumes "c < length (objs s)" and "fields_ok xs c (objs s ! c)"
  shows "unhookEvents c s = Inr (unhooked c s)"
proof (cases "editorMouseMoveHandler (objs s ! c)")
  case None
  then have eq: "(objs s ! c)\<lparr>editorMouseMoveHandler := None\<rparr> = objs s ! c"
    by (cases "objs s ! c") simp
  show ?thesis by (simp add: unhookEvents_def unhooked_def unhooks_def None eq)
next
  case (Some h)
  show ?thesis
  proof (cases "terminalInstanceCreatedHandler (objs s ! c)")
    case None
    with Some assms(1) show ?thesis
      by (simp add: unhookEvents_def unhooked_def unhooks_def Let_def manageTerminals_def upd_nth
          dispose_sub_eq upd_def)
  next
    case (Some hc)
    with assms(2) obtain m where m: "terminalHooks (objs s ! c) = Some m" "entries m = []"
      by (auto simp: fields_ok_def split: option.splits)
    have cl: "clear m = m" using m(2) by (cases m) (simp add: clear_def)
    have eq: "(objs s ! c)\<lparr>editorMouseMoveHandler := None, terminalHooks := Some m\<rparr> =
      (objs s ! c)\<lparr>editorMouseMoveHandler := None\<rparr>"
      using m(1) by (cases "objs s ! c") simp
    show ?thesis using Some \<open>editorMouseMoveHandler (objs s ! c) = Some h\<close> assms(1) m
      by (simp add: unhookEvents_def unhooked_def unhooks_def Let_def manageTerminals_def upd_nth
          dispose_sub_eq upd_def disposeHooks_eq cl eq)
  qed
qed

lemma held_field:
  "fields_ok xs c obj \<Longrightarrow> h \<in> held obj \<Longrightarrow>
   \<exists>l. subscribed xs h l \<and> owner l = Some c \<and> field_of l obj = Some h"
  by (auto simp: fields_ok_def held_def field_of_def split: option.splits)

lemma fields_ok_offs:
  "fields_ok xs c obj \<Longrightarrow> set hs \<inter> held obj = {} \<Longrightarrow> fields_ok (offs hs xs) c obj"
  by (induction hs arbitrary: xs) (auto simp: fields_ok_off)

lemma fields_ok_unhook:
  "fields_ok xs c obj \<Longrightarrow> fields_ok xs c (obj\<lparr>editorMouseMoveHandler := None\<rparr>)"
  by (auto simp: fields_ok_def split: option.splits)

lemma unhooks_listens:
  assumes "fields_ok (subs s) c (objs s ! c)" and "h \<in> set (unhooks s c)"
  shows "(editorMouseMoveHandler (objs s ! c) = Some h \<and>
          listens (subs s) h (EditorMouseMoveListener (editor (objs s ! c)) c)) \<or>
         (\<exists>t. listens (subs s) h (TerminalMouseMoveListener t))"
proof (cases "editorMouseMoveHandler (objs s ! c)")
  case None
  with assms(2) show ?thesis by (simp add: unhooks_mem)
next
  case (Some h')
  with assms(1) have e: "listens (subs s) h' (EditorMouseMoveListener (editor (objs s ! c)) c)"
    by (simp add: fields_ok_def subscribed_listens)
  show ?thesis
  proof (cases "h = h'")
    case True
    with Some e show ?thesis by simp
  next
    case False
    with Some assms(2) obtain m where m: "manageTerminals s c" "terminalHooks (objs s ! c) = Some m"
      "h \<in> snd ` set (props m)"
      by (auto simp: unhooks_mem)
    from m(3) obtain t where "(t, h) \<in> set (props m)" by auto
    moreover from assms(1) m(1,2) have "list_all (hookFor (subs s)) (props m)"
      by (auto simp: fields_ok_def manageTerminals_def split: option.splits)
    ultimately have "listens (subs s) h (TerminalMouseMoveListener t)"
      by (auto simp: list_all_iff hookFor_def)
    then show ?thesis by blast
  qed
qed

lemma unhooks_not_held:
  assumes f: "fields_ok (subs s) c (objs s ! c)" and g: "fields_ok (subs s) d obj"
    and h: "h \<in> set (unhooks s c)" and o: "d = c \<longrightarrow> editorMouseMoveHandler obj = None"
  shows "h \<notin> held obj"
proof
  assume "h \<in> held obj"
  with g obtain l where l: "subscribed (subs s) h l" "owner l = Some d" "field_of l obj = Some h"
    using held_field by blast
  from unhooks_listens [OF f h] show False
  proof
    assume a: "editorMouseMoveHandler (objs s ! c) = Some h \<and>
          listens (subs s) h (EditorMouseMoveListener (editor (objs s ! c)) c)"
    with l(1) have "l = EditorMouseMoveListener (editor (objs s ! c)) c"
      using listens_inj subscribed_listens by blast
    with l(2,3) o show False by (simp add: field_of_def)
  next
    assume "\<exists>t. listens (subs s) h (TerminalMouseMoveListener t)"
    then obtain t where "listens (subs s) h (TerminalMouseMoveListener t)" ..
    with l(1) have "l = TerminalMouseMoveListener t"
      using listens_inj subscribed_listens by blast
    with l(2) show False by simp
  qed
qed

lemma unhooked_fields [simp]:
  "Instances (unhooked c s) = Instances s"
  "focusOnHover (unhooked c s) = focusOnHover s"
  "terminalInstances (unhooked c s) = terminalInstances s"
  "length (objs (unhooked c s)) = length (objs s)"
  "length (subs (unhooked c s)) = length (subs s)"
  "subs (unhooked c s) = offs (unhooks s c) (subs s)"
  by (simp_all add: unhooked_def)

lemma unhooked_nth:
  "objs (unhooked c s) ! d =
     (if d = c \<and> c < length (objs s) then (objs s ! c)\<lparr>editorMouseMoveHandler := None\<rparr>
      else objs s ! d)"
  by (cases "c < length (objs s)") (auto simp: unhooked_def nth_list_update list_update_beyond)

lemma unhooked_consistent:
  assumes s: "consistent s" and c: "c \<in> set (Instances s)"
  shows "consistent (unhooked c s)"
proof (rule consistentI)
  note fc = consistent_fields [OF s c]
  note bc = consistent_bound [OF s c]
  show "distinct (Instances (unhooked c s))" using s by (simp add: consistent_distinct)
  show "d < length (objs (unhooked c s))" if "d \<in> set (Instances (unhooked c s))" for d
    using that s by (simp add: consistent_bound)
  show "fields_ok (subs (unhooked c s)) d (objs (unhooked c s) ! d)"
    if "d \<in> set (Instances (unhooked c s))" for d
  proof -
    from that have d: "d \<in> set (Instances s)" by simp
    let ?o = "objs (unhooked c s) ! d"
    have g: "fields_ok (subs s) d ?o"
      using consistent_fields [OF s d] by (auto simp: unhooked_nth fields_ok_unhook)
    have "d = c \<longrightarrow> editorMouseMoveHandler ?o = None" using bc by (simp add: unhooked_nth)
    then have "set (unhooks s c) \<inter> held ?o = {}"
      using unhooks_not_held [OF fc g] by blast
    with g show ?thesis by (simp add: fields_ok_offs)
  qed
  show "manageTerminals (unhooked c s) d \<longleftrightarrow> d = hd (Instances (unhooked c s))"
    if "d \<in> set (Instances (unhooked c s))" for d
    using that consistent_manager [OF s, of d]
    by (auto simp: manageTerminals_def unhooked_nth)
  show "owner_ok (Instances (unhooked c s)) (objs (unhooked c s)) i l"
    if "subscribed (subs (unhooked c s)) i l" for i l
  proof -
    from that have i: "subscribed (subs s) i l" "i \<notin> set (unhooks s c)" by simp_all
    from consistent_owner [OF s i(1)] have o: "owner_ok (Instances s) (objs s) i l" .
    show ?thesis
    proof (cases "owner l")
      case None
      then show ?thesis by (simp add: owner_ok_iff)
    next
      case (Some d)
      with o have d: "d \<in> set (Instances s)" "field_of l (objs s ! d) = Some i"
        by (simp_all add: owner_ok_iff)
      have "field_of l (objs (unhooked c s) ! d) = Some i"
      proof (cases "d = c")
        case False
        with d show ?thesis by (simp add: unhooked_nth)
      next
        case True
        have "editorMouseMoveHandler (objs s ! c) \<noteq> Some i"
          using i(2) by (auto simp: unhooks_mem)
        with d True show ?thesis
          by (cases l) (auto simp: unhooked_nth field_of_def)
      qed
      with Some d show ?thesis by (simp add: owner_ok_iff)
    qed
  qed
qed

lemma hookEvents_eq:
  assumes "c < length (objs s)"
    and "manageTerminals s c \<longrightarrow> terminalHooks (objs s ! c) \<noteq> None"
  shows "hookEvents c s = Inr (hooked c s)"
proof (cases "focusOnHover s (editor (objs s ! c))")
  case False
  then show ?thesis by (simp add: hookEvents_def hooked_def Let_def)
next
  case True
  show ?thesis
  proof (cases "manageTerminals s c")
    case False
    have "map_option (\<lambda>m. m\<lparr>props := props m\<rparr>) (terminalHooks (objs s ! c)) = terminalHooks (objs s ! c)"
      by (cases "terminalHooks (objs s ! c)") simp_all
    then have "(objs s ! c)\<lparr>editorMouseMoveHandler := Some (length (subs s)),
          terminalHooks := map_option (\<lambda>m. m\<lparr>props := props m\<rparr>) (terminalHooks (objs s ! c))\<rparr> =
        (objs s ! c)\<lparr>editorMouseMoveHandler := Some (length (subs s))\<rparr>"
      by (cases "objs s ! c") simp
    with True False assms(1) show ?thesis
      by (simp add: hookEvents_def hooked_def Let_def subscribe_def upd_def manageTerminals_def)
  next
    case m: True
    with assms(2) obtain m where hm: "terminalHooks (objs s ! c) = Some m" by auto
    let ?s2 = "upd c (\<lambda>obj. obj\<lparr>editorMouseMoveHandler := Some (length (subs s))\<rparr>)
                 (s\<lparr>subs := subs s @ [(EditorMouseMoveListener (editor (objs s ! c)) c, True)]\<rparr>)"
    have 1: "hookEvents c s = hookTerminals c (terminalInstances s) ?s2"
      using True m assms(1)
      by (simp add: hookEvents_def Let_def subscribe_def manageTerminals_def upd_nth)
    have 2: "c < length (objs ?s2)" "terminalHooks (objs ?s2 ! c) = Some m"
      using assms(1) hm by (simp_all add: upd_nth)
    show ?thesis
      unfolding 1 hookTerminals_eq [OF 2]
      using True m assms(1) hm
      by (simp add: hooked_def Let_def upd_def)
  qed
qed

lemma hooked_off: "\<not> focusOnHover s (editor (objs s ! c)) \<Longrightarrow> hooked c s = s"
  by (simp add: hooked_def Let_def)

lemma hooked_fields [simp]:
  "Instances (hooked c s) = Instances s"
  "focusOnHover (hooked c s) = focusOnHover s"
  "terminalInstances (hooked c s) = terminalInstances s"
  "length (objs (hooked c s)) = length (objs s)"
  by (simp_all add: hooked_def Let_def)

lemma hooked_nth_other: "d \<noteq> c \<Longrightarrow> objs (hooked c s) ! d = objs s ! d"
  by (simp add: hooked_def Let_def)

lemma hooked_obj_fields:
  "editor (objs (hooked c s) ! d) = editor (objs s ! d)"
  "didChangeConfigurationHandler (objs (hooked c s) ! d) = didChangeConfigurationHandler (objs s ! d)"
  "terminalInstanceCreatedHandler (objs (hooked c s) ! d) = terminalInstanceCreatedHandler (objs s ! d)"
  "terminalInstanceDisposedHandler (objs (hooked c s) ! d) = terminalInstanceDisposedHandler (objs s ! d)"
  by (cases "d = c"; cases "c < length (objs s)"; simp add: hooked_def Let_def list_update_beyond)+

lemma manageTerminals_hooked [simp]: "manageTerminals (hooked c s) d = manageTerminals s d"
  by (simp add: manageTerminals_def hooked_obj_fields)

lemma list_all_putAll:
  assumes "list_all P kvs" and "\<And>i. i < length ts \<Longrightarrow> P (ts ! i, n + i)"
  shows "list_all P (putAll ts n kvs)"
  using assms set_putAll [of ts n kvs] unfolding list_all_iff by blast

lemma hookFor_append: "hookFor xs kv \<Longrightarrow> hookFor (xs @ ys) kv"
  by (simp add: hookFor_def)

lemma hooked_consistent:
  assumes s: "consistent s" and c: "c \<in> set (Instances s)"
    and n: "editorMouseMoveHandler (objs s ! c) = None"
  shows "consistent (hooked c s)"
proof (cases "focusOnHover s (editor (objs s ! c))")
  case False
  with s show ?thesis by (simp add: hooked_off)
next
  case True
  note fc = consistent_fields [OF s c]
  note bc = consistent_bound [OF s c]
  define ts where "ts = (if manageTerminals s c then terminalInstances s else [])"
  define new where "new = (EditorMouseMoveListener (editor (objs s ! c)) c, True) #
                                map (\<lambda>t. (TerminalMouseMoveListener t, True)) ts"
  define obj where "obj = (objs s ! c)\<lparr>editorMouseMoveHandler := Some (length (subs s)),
       terminalHooks := map_option (\<lambda>m. m\<lparr>props := putAll ts (Suc (length (subs s))) (props m)\<rparr>)
                                           (terminalHooks (objs s ! c))\<rparr>"
  have subs: "subs (hooked c s) = subs s @ new"
    using True by (simp add: hooked_def Let_def new_def ts_def)
  have objc: "objs (hooked c s) ! c = obj"
    using True bc by (simp add: hooked_def Let_def obj_def ts_def)
  show ?thesis
  proof (rule consistentI)
    show "distinct (Instances (hooked c s))" using s by (simp add: consistent_distinct)
    show "d < length (objs (hooked c s))" if "d \<in> set (Instances (hooked c s))" for d
      using that s by (simp add: consistent_bound)
    show "manageTerminals (hooked c s) d \<longleftrightarrow> d = hd (Instances (hooked c s))"
      if "d \<in> set (Instances (hooked c s))" for d
      using that consistent_manager [OF s, of d] by simp
    show "fields_ok (subs (hooked c s)) d (objs (hooked c s) ! d)"
      if "d \<in> set (Instances (hooked c s))" for d
    proof (cases "d = c")
      case False
      with that consistent_fields [OF s, of d] show ?thesis
        by (simp add: hooked_nth_other subs fields_ok_append del: subscribed_append)
    next
      case d: True
      have "list_all (hookFor (subs s @ new)) (putAll ts (Suc (length (subs s))) (props m))"
        if m: "terminalHooks (objs s ! c) = Some m" "list_all (hookFor (subs s)) (props m)" for m
      proof (rule list_all_putAll)
        show "list_all (hookFor (subs s @ new)) (props m)"
          using m(2) by (simp add: list_all_iff hookFor_append)
        show "hookFor (subs s @ new) (ts ! i, Suc (length (subs s)) + i)" if "i < length ts" for i
          using that by (simp add: hookFor_def new_def)
      qed
      with fc have "fields_ok (subs s @ new) c obj"
        by (auto simp: fields_ok_def obj_def new_def split: option.splits)
      with d show ?thesis by (simp add: subs objc)
    qed
    show "owner_ok (Instances (hooked c s)) (objs (hooked c s)) i l"
      if "subscribed (subs (hooked c s)) i l" for i l
    proof -
      from that have "subscribed (subs s) i l \<or>
          (i = length (subs s) \<and> l = EditorMouseMoveListener (editor (objs s ! c)) c) \<or>
          (\<exists>t. l = TerminalMouseMoveListener t)"
        by (auto simp: subs new_def)
      then show ?thesis
      proof (elim disjE exE)
        assume old: "subscribed (subs s) i l"
        from consistent_owner [OF s old] have o: "owner_ok (Instances s) (objs s) i l" .
        show ?thesis
        proof (cases "owner l")
          case None
          then show ?thesis by (simp add: owner_ok_iff)
        next
          case (Some d)
          with o have d: "d \<in> set (Instances s)" "field_of l (objs s ! d) = Some i"
            by (simp_all add: owner_ok_iff)
          have "field_of l (objs (hooked c s) ! d) = Some i"
          proof (cases "d = c")
            case False
            with d show ?thesis by (simp add: hooked_nth_other)
          next
            case True
            with d n show ?thesis
              by (cases l) (auto simp: objc obj_def field_of_def)
          qed
          with Some d show ?thesis by (simp add: owner_ok_iff)
        qed
      next
        assume "i = length (subs s) \<and> l = EditorMouseMoveListener (editor (objs s ! c)) c"
        with c show ?thesis by (simp add: objc obj_def)
      next
        fix t assume "l = TerminalMouseMoveListener t"
        then show ?thesis by simp
      qed
    qed
  qed
qed

lemma onTerminalCreated_eq:
  "terminalHooks (objs s ! c) \<noteq> None \<Longrightarrow> onTerminalCreated c t s = Inr (withHook c t s)"
  by (auto simp: onTerminalCreated_def withHook_def subscribe_def upd_def)

lemma onTerminalDisposed_eq:
  "terminalHooks (objs s ! c) = Some m \<Longrightarrow> entries m = [] \<Longrightarrow> onTerminalDisposed c t s = Inr s"
  by (simp add: onTerminalDisposed_def has_def)

lemma withHook_fields [simp]:
  "Instances (withHook c t s) = Instances s"
  "focusOnHover (withHook c t s) = focusOnHover s"
  "terminalInstances (withHook c t s) = terminalInstances s"
  "length (objs (withHook c t s)) = length (objs s)"
  by (simp_all add: withHook_def)

lemma withHook_nth_other: "d \<noteq> c \<Longrightarrow> objs (withHook c t s) ! d = objs s ! d"
  by (simp add: withHook_def)

lemma withHook_obj_fields:
  "editor (objs (withHook c t s) ! d) = editor (objs s ! d)"
  "didChangeConfigurationHandler (objs (withHook c t s) ! d) = didChangeConfigurationHandler (objs s ! d)"
  "editorMouseMoveHandler (objs (withHook c t s) ! d) = editorMouseMoveHandler (objs s ! d)"
  "terminalInstanceCreatedHandler (objs (withHook c t s) ! d) = terminalInstanceCreatedHandler (objs s ! d)"
  "terminalInstanceDisposedHandler (objs (withHook c t s) ! d) = terminalInstanceDisposedHandler (objs s ! d)"
  by (cases "d = c"; cases "c < length (objs s)"; simp add: withHook_def list_update_beyond)+

lemma manageTerminals_withHook [simp]: "manageTerminals (withHook c t s) d = manageTerminals s d"
  by (simp add: manageTerminals_def withHook_obj_fields)

lemma synced_withHook [simp]: "synced (withHook c t s) d = synced s d"
  by (simp add: synced_def withHook_obj_fields)

lemma list_all_put:
  "list_all P kvs \<Longrightarrow> P (k, v) \<Longrightarrow> list_all P (put k v kvs)"
  using set_put [of k v kvs] unfolding list_all_iff by blast

lemma withHook_consistent:
  assumes s: "consistent s" and c: "c \<in> set (Instances s)"
  shows "consistent (withHook c t s)"
proof (cases "focusOnHover s (editor (objs s ! c))")
  case False
  with s show ?thesis by (simp add: withHook_def)
next
  case True
  note fc = consistent_fields [OF s c]
  note bc = consistent_bound [OF s c]
  define new where "new = [(TerminalMouseMoveListener t, True)]"
  define obj where "obj = (objs s ! c)\<lparr>terminalHooks :=
                     map_option (\<lambda>m. m\<lparr>props := put t (length (subs s)) (props m)\<rparr>)
                       (terminalHooks (objs s ! c))\<rparr>"
  have subs: "subs (withHook c t s) = subs s @ new"
    using True by (simp add: withHook_def new_def)
  have objc: "objs (withHook c t s) ! c = obj"
    using True bc by (simp add: withHook_def obj_def)
  show ?thesis
  proof (rule consistentI)
    show "distinct (Instances (withHook c t s))" using s by (simp add: consistent_distinct)
    show "d < length (objs (withHook c t s))" if "d \<in> set (Instances (withHook c t s))" for d
      using that s by (simp add: consistent_bound)
    show "manageTerminals (withHook c t s) d \<longleftrightarrow> d = hd (Instances (withHook c t s))"
      if "d \<in> set (Instances (withHook c t s))" for d
      using that consistent_manager [OF s, of d] by simp
    show "fields_ok (subs (withHook c t s)) d (objs (withHook c t s) ! d)"
      if "d \<in> set (Instances (withHook c t s))" for d
    proof (cases "d = c")
      case False
      with that consistent_fields [OF s, of d] show ?thesis
        by (simp add: withHook_nth_other subs fields_ok_append del: subscribed_append)
    next
      case d: True
      have "list_all (hookFor (subs s @ new)) (put t (length (subs s)) (props m))"
        if m: "list_all (hookFor (subs s)) (props m)" for m
      proof (rule list_all_put)
        show "list_all (hookFor (subs s @ new)) (props m)"
          using m by (simp add: list_all_iff hookFor_append)
        show "hookFor (subs s @ new) (t, length (subs s))"
          by (simp add: hookFor_def new_def)
      qed
      with fc have "fields_ok (subs s @ new) c obj"
        by (auto simp: fields_ok_def obj_def new_def split: option.splits)
      with d show ?thesis by (simp add: subs objc)
    qed
    show "owner_ok (Instances (withHook c t s)) (objs (withHook c t s)) i l"
      if "subscribed (subs (withHook c t s)) i l" for i l
    proof -
      from that have "subscribed (subs s) i l \<or> l = TerminalMouseMoveListener t"
        by (auto simp: subs new_def)
      then show ?thesis
      proof
        assume old: "subscribed (subs s) i l"
        from consistent_owner [OF s old] show ?thesis
          by (cases l) (simp_all add: withHook_obj_fields)
      next
        assume "l = TerminalMouseMoveListener t"
        then show ?thesis by simp
      qed
    qed
  qed
qed

lemma hooked_Instances_update:
  "hooked c (s\<lparr>Instances := I\<rparr>) = (hooked c s)\<lparr>Instances := I\<rparr>"
  by (simp add: hooked_def Let_def manageTerminals_def)

lemma construct_eq: "construct e s = Inr (hooked (length (objs s)) (registered e s))"
proof (cases "Instances s = []")
  case True
  let ?c = "length (objs s)"
  let ?n = "length (subs s)"
  let ?s3 = "s\<lparr>subs := subs s @ [(ConfigurationListener e ?c, True), (InstanceCreatedListener ?c, True),
                               (InstanceDisposedListener ?c, True)],
             objs := objs s @
               [\<lparr>editor = e, didChangeConfigurationHandler = ?n,
                 editorMouseMoveHandler = None, terminalHooks = Some new_Map,
                 terminalInstanceCreatedHandler = Some (Suc ?n),
                 terminalInstanceDisposedHandler = Some (Suc (Suc ?n))\<rparr>]\<rparr>"
  have h: "hookEvents ?c ?s3 = Inr (hooked ?c ?s3)"
    by (rule hookEvents_eq) simp_all
  have r: "registered e s = ?s3\<lparr>Instances := [?c]\<rparr>"
    using True by (simp add: registered_def Let_def)
  have "construct e s = thenE (hookEvents ?c ?s3) (\<lambda>s4. Inr (s4\<lparr>Instances := Instances s4 @ [?c]\<rparr>))"
    using True by (simp add: construct_def Let_def subscribe_def handleTerminals_def upd_def)
  also have "\<dots> = Inr ((hooked ?c ?s3)\<lparr>Instances := [?c]\<rparr>)"
    using True by (simp add: h thenE_def)
  finally show ?thesis by (simp add: r hooked_Instances_update)
next
  case False
  let ?c = "length (objs s)"
  let ?n = "length (subs s)"
  let ?s3 = "s\<lparr>subs := subs s @ [(ConfigurationListener e ?c, True)],
             objs := objs s @
               [\<lparr>editor = e, didChangeConfigurationHandler = ?n,
                 editorMouseMoveHandler = None, terminalHooks = None,
                 terminalInstanceCreatedHandler = None,
                 terminalInstanceDisposedHandler = None\<rparr>]\<rparr>"
  have h: "hookEvents ?c ?s3 = Inr (hooked ?c ?s3)"
    by (rule hookEvents_eq) (simp_all add: manageTerminals_def)
  have r: "registered e s = ?s3\<lparr>Instances := Instances s @ [?c]\<rparr>"
    using False by (simp add: registered_def Let_def)
  have "construct e s = thenE (hookEvents ?c ?s3) (\<lambda>s4. Inr (s4\<lparr>Instances := Instances s4 @ [?c]\<rparr>))"
    using False by (simp add: construct_def Let_def subscribe_def)
  also have "\<dots> = Inr ((hooked ?c ?s3)\<lparr>Instances := Instances s @ [?c]\<rparr>)"
    by (simp add: h thenE_def)
  finally show ?thesis by (simp add: r hooked_Instances_update)
qed

lemma registered_consistent:
  assumes s: "consistent s"
  shows "consistent (registered e s)"
proof -
  define c where "c = length (objs s)"
  define n where "n = length (subs s)"
  have fresh: "c \<notin> set (Instances s)"
    using consistent_bound [OF s, of c] by (auto simp: c_def)
  have old: "d < c" if "d \<in> set (Instances s)" for d
    using consistent_bound [OF s that] by (simp add: c_def)
  show ?thesis
  proof (cases "Instances s = []")
    case True
    define new where "new = [(ConfigurationListener e c, True), (InstanceCreatedListener c, True),
                               (InstanceDisposedListener c, True)]"
    define obj where "obj = \<lparr>editor = e, didChangeConfigurationHandler = n,
                 editorMouseMoveHandler = None, terminalHooks = Some new_Map,
                 terminalInstanceCreatedHandler = Some (Suc n),
                 terminalInstanceDisposedHandler = Some (Suc (Suc n))\<rparr>"
    have r: "registered e s = s\<lparr>Instances := [c], subs := subs s @ new, objs := objs s @ [obj]\<rparr>"
      using True by (simp add: registered_def Let_def c_def n_def new_def obj_def)
    show ?thesis
    proof (rule consistentI)
      show "distinct (Instances (registered e s))" by (simp add: r)
      show "d < length (objs (registered e s))" if "d \<in> set (Instances (registered e s))" for d
        using that by (simp add: r c_def)
      show "fields_ok (subs (registered e s)) d (objs (registered e s) ! d)"
        if "d \<in> set (Instances (registered e s))" for d
        using that by (simp add: r c_def fields_ok_def obj_def new_def n_def new_Map_def)
      show "manageTerminals (registered e s) d \<longleftrightarrow> d = hd (Instances (registered e s))"
        if "d \<in> set (Instances (registered e s))" for d
        using that by (simp add: r manageTerminals_def c_def obj_def)
      show "owner_ok (Instances (registered e s)) (objs (registered e s)) i l"
        if "subscribed (subs (registered e s)) i l" for i l
      proof -
        from that have "subscribed (subs s) i l \<or> (length (subs s) \<le> i \<and> subscribed new (i - n) l)"
          by (simp add: r n_def)
        then show ?thesis
        proof
          assume a: "subscribed (subs s) i l"
          from consistent_owner [OF s a] True show ?thesis
            by (cases l) simp_all
        next
          assume "length (subs s) \<le> i \<and> subscribed new (i - n) l"
          then show ?thesis
            by (auto simp: new_def r c_def obj_def n_def)
        qed
      qed
    qed
  next
    case False
    define new where "new = [(ConfigurationListener e c, True)]"
    define obj where "obj = \<lparr>editor = e, didChangeConfigurationHandler = n,
                 editorMouseMoveHandler = None, terminalHooks = None,
                 terminalInstanceCreatedHandler = None,
                 terminalInstanceDisposedHandler = None\<rparr>"
    have r: "registered e s = s\<lparr>Instances := Instances s @ [c], subs := subs s @ new, objs := objs s @ [obj]\<rparr>"
      using False by (simp add: registered_def Let_def c_def n_def new_def obj_def)
    have nth: "(objs s @ [obj]) ! d = objs s ! d" if "d \<in> set (Instances s)" for d
      using old [OF that] by (simp add: nth_append c_def)
    show ?thesis
    proof (rule consistentI)
      show "distinct (Instances (registered e s))"
        using fresh s by (simp add: r consistent_distinct)
      show "d < length (objs (registered e s))" if "d \<in> set (Instances (registered e s))" for d
        using that old by (auto simp: r c_def less_Suc_eq)
      show "fields_ok (subs (registered e s)) d (objs (registered e s) ! d)"
        if "d \<in> set (Instances (registered e s))" for d
      proof (cases "d = c")
        case True
        then show ?thesis by (simp add: r c_def fields_ok_def obj_def new_def n_def)
      next
        case False
        with that have d: "d \<in> set (Instances s)" by (simp add: r)
        from consistent_fields [OF s d] show ?thesis
          by (simp add: r nth [OF d] fields_ok_append del: subscribed_append)
      qed
      show "manageTerminals (registered e s) d \<longleftrightarrow> d = hd (Instances (registered e s))"
        if "d \<in> set (Instances (registered e s))" for d
      proof (cases "d = c")
        case True
        have "hd (Instances s) \<in> set (Instances s)" using False by simp
        with fresh have "hd (Instances s) \<noteq> c" by metis
        with True False show ?thesis by (simp add: r manageTerminals_def c_def obj_def)
      next
        case d: False
        with that have d': "d \<in> set (Instances s)" by (simp add: r)
        from consistent_manager [OF s d'] False show ?thesis
          by (simp add: r manageTerminals_def nth [OF d'])
      qed
      show "owner_ok (Instances (registered e s)) (objs (registered e s)) i l"
        if "subscribed (subs (registered e s)) i l" for i l
      proof -
        from that have "subscribed (subs s) i l \<or> (i = n \<and> l = ConfigurationListener e c)"
          by (auto simp: r n_def new_def)
        then show ?thesis
        proof
          assume a: "subscribed (subs s) i l"
          from consistent_owner [OF s a] show ?thesis
            by (cases l) (auto simp: r nth)
        next
          assume "i = n \<and> l = ConfigurationListener e c"
          then show ?thesis by (simp add: r c_def obj_def)
        qed
      qed
    qed
  qed
qed

lemma offs_nth:
  "i < length xs \<Longrightarrow> offs hs xs ! i = (fst (xs ! i), snd (xs ! i) \<and> i \<notin> set hs)"
proof (induction hs arbitrary: xs)
  case Nil
  then show ?case by simp
next
  case (Cons h hs)
  then show ?case by (cases "i = h") (auto simp: off_def)
qed

lemma offs_cong: "set hs = set hs' \<Longrightarrow> offs hs xs = offs hs' xs"
  by (rule nth_equalityI) (simp_all add: offs_nth)

lemma offs_append_left: "\<forall>h \<in> set hs. h < length xs \<Longrightarrow> offs hs (xs @ ys) = offs hs xs @ ys"
proof (rule nth_equalityI)
  show "length (offs hs (xs @ ys)) = length (offs hs xs @ ys)" by simp
  fix i assume "i < length (offs hs (xs @ ys))" and h: "\<forall>h \<in> set hs. h < length xs"
  then have i: "i < length (xs @ ys)" by simp
  show "offs hs (xs @ ys) ! i = (offs hs xs @ ys) ! i"
  proof (cases "i < length xs")
    case True
    then show ?thesis using i by (simp add: offs_nth nth_append)
  next
    case False
    with h have "i \<notin> set hs" by auto
    with False i show ?thesis by (simp add: offs_nth nth_append)
  qed
qed

lemma offs_offs: "offs hs (offs hs' xs) = offs (hs' @ hs) xs"
  by (induction hs' arbitrary: xs) auto

lemma off_offs: "off h (offs hs xs) = offs (hs @ [h]) xs"
  using offs_offs [of "[h]" hs xs] by simp

lemma releaseTerminals_registry:
  assumes "distinct (Instances s)" and "c \<in> set (Instances s)"
  shows "splice (indexOf (Instances s) c) 1 (Instances s) = filter (\<lambda>d. d \<noteq> c) (Instances s)"
  using assms by (rule splice_indexOf_distinct)

lemma dispose_eq:
  assumes s: "consistent s" and c: "c \<in> set (Instances s)"
  shows "dispose c s = Inr (afterDispose c s)"
proof -
  define obj where "obj = objs s ! c"
  define rest where "rest = filter (\<lambda>d. d \<noteq> c) (Instances s)"
  define cfg where "cfg = didChangeConfigurationHandler obj"
  note f = consistent_fields [OF s c, folded obj_def]
  note b = consistent_bound [OF s c]
  have sp: "splice (indexOf (Instances s) c) 1 (Instances s) = rest"
    unfolding rest_def using consistent_distinct [OF s] c by (rule splice_indexOf_distinct)
  show ?thesis
  proof (cases "terminalInstanceCreatedHandler obj")
    case None
    with f have d: "terminalInstanceDisposedHandler obj = None" by (simp add: fields_ok_def)
    let ?s2 = "s\<lparr>subs := off cfg (subs s), Instances := rest\<rparr>"
    have r: "releaseTerminals c s = Inr ?s2"
      using None sp by (simp add: releaseTerminals_def Let_def dispose_sub_eq obj_def cfg_def)
    have u: "unhookEvents c ?s2 = Inr (unhooked c ?s2)"
      by (rule unhookEvents_eq [where xs = "subs s"]) (use b f in \<open>simp_all add: obj_def\<close>)
    have "unhooks ?s2 c = optList (editorMouseMoveHandler obj)"
      using None by (cases "editorMouseMoveHandler obj") (simp_all add: unhooks_def manageTerminals_def obj_def)
    then have "unhooked c ?s2 = afterDispose c s"
      using None d
      by (simp add: unhooked_def afterDispose_def obj_def [symmetric] rest_def [symmetric]
          handlersOf_def cfg_def)
    with r u show ?thesis by (simp add: dispose_def thenE_def)
  next
    case (Some hc)
    with f obtain hd' m where d: "terminalInstanceDisposedHandler obj = Some hd'"
      and m: "terminalHooks obj = Some m" "entries m = []"
      by (auto simp: fields_ok_def split: option.splits)
    have cl: "clear m = m" using m(2) by (cases m) (simp add: clear_def)
    show ?thesis
    proof (cases rest)
      case Nil
      let ?s5 = "s\<lparr>subs := offs ([cfg, hc, hd'] @ map snd (props m)) (subs s), Instances := []\<rparr>"
      have o5: "objs ?s5 ! c = obj" by (simp add: obj_def)
      have r: "releaseTerminals c s = Inr ?s5"
      proof -
        have "(objs s)[c := (objs s ! c)\<lparr>terminalHooks := Some m\<rparr>] = objs s"
          using m(1) by (simp add: obj_def list_update_same_conv b)
        then show ?thesis
          using Some d m sp Nil
          by (simp add: releaseTerminals_def Let_def dispose_sub_eq obj_def [symmetric] cfg_def
            upd_def disposeHooks_eq cl offs_offs [symmetric])
      qed
      have u: "unhookEvents c ?s5 = Inr (unhooked c ?s5)"
        by (rule unhookEvents_eq [where xs = "subs s"]) (use b f in \<open>simp_all add: obj_def\<close>)
      have "set (([cfg, hc, hd'] @ map snd (props m)) @ unhooks ?s5 c) =
            set (handlersOf obj @ hooksOf (terminalHooks obj))"
        using Some d m
        by (cases "editorMouseMoveHandler obj")
          (auto simp: unhooks_def manageTerminals_def obj_def [symmetric] handlersOf_def cfg_def)
      then have "offs (([cfg, hc, hd'] @ map snd (props m)) @ unhooks ?s5 c) (subs s) =
                 offs (handlersOf obj @ hooksOf (terminalHooks obj)) (subs s)"
        by (rule offs_cong)
      then have "offs (unhooks ?s5 c) (subs ?s5) = offs (handlersOf obj @ hooksOf (terminalHooks obj)) (subs s)"
        by (simp add: offs_offs)
      then have "unhooked c ?s5 = afterDispose c s"
        using Some Nil
        by (simp add: unhooked_def afterDispose_def obj_def [symmetric] rest_def [symmetric])
      with r u show ?thesis by (simp add: dispose_def thenE_def)
    next
      case (Cons other r')
      then have "other \<in> set rest" by simp
      then have oc: "other \<noteq> c" and ol: "other \<in> set (Instances s)" by (simp_all add: rest_def)
      note bo = consistent_bound [OF s ol]
      define n where "n = length (subs s)"
      define obj' where "obj' = (objs s ! other)
            \<lparr>terminalHooks := Some m,
              terminalInstanceCreatedHandler := Some n,
              terminalInstanceDisposedHandler := Some (Suc n)\<rparr>"
      let ?s7 = "s\<lparr>subs := offs [cfg, hc, hd'] (subs s) @
                       [(InstanceCreatedListener other, True), (InstanceDisposedListener other, True)],
                   Instances := rest,
                   objs := (objs s)[other := obj', c := obj\<lparr>terminalHooks := Some new_Map\<rparr>]\<rparr>"
      have r: "releaseTerminals c s = Inr ?s7"
        using Some d m sp Cons oc b bo
        by (simp add: releaseTerminals_def Let_def dispose_sub_eq obj_def [symmetric] cfg_def
            upd_def handleTerminals_def subscribe_def obj'_def n_def)
      have o7: "objs ?s7 ! c = obj\<lparr>terminalHooks := Some new_Map\<rparr>" using b by simp
      have u: "unhookEvents c ?s7 = Inr (unhooked c ?s7)"
        by (rule unhookEvents_eq [where xs = "subs s"])
           (use b f in \<open>auto simp: fields_ok_def new_Map_def split: option.splits\<close>)
      have un: "unhooks ?s7 c = optList (editorMouseMoveHandler obj)"
        using Some b
        by (cases "editorMouseMoveHandler obj")
           (simp_all add: unhooks_def manageTerminals_def new_Map_def)
      have "\<forall>h \<in> set (optList (editorMouseMoveHandler obj)). h < length (offs [cfg, hc, hd'] (subs s))"
        using f by (cases "editorMouseMoveHandler obj") (simp_all add: fields_ok_def subscribed_def)
      then have "offs (unhooks ?s7 c) (subs ?s7) =
        offs (optList (editorMouseMoveHandler obj)) (offs [cfg, hc, hd'] (subs s)) @
          [(InstanceCreatedListener other, True), (InstanceDisposedListener other, True)]"
        unfolding un using offs_append_left by simp
      also have "offs (optList (editorMouseMoveHandler obj)) (offs [cfg, hc, hd'] (subs s)) =
                 offs ([cfg, hc, hd'] @ optList (editorMouseMoveHandler obj)) (subs s)"
        by (simp only: offs_offs)
      also have "\<dots> = offs (handlersOf obj) (subs s)"
        by (rule offs_cong) (use Some d in \<open>auto simp: handlersOf_def cfg_def\<close>)
      finally have fin: "offs (unhooks ?s7 c) (subs ?s7) =
          offs (handlersOf obj) (subs s) @
          [(InstanceCreatedListener other, True), (InstanceDisposedListener other, True)]" .
      have sw: "obj\<lparr>terminalHooks := Some new_Map, editorMouseMoveHandler := None\<rparr> =
                obj\<lparr>editorMouseMoveHandler := None, terminalHooks := Some new_Map\<rparr>"
        by (cases obj) simp
      have "unhooked c ?s7 = afterDispose c s"
        using Some Cons b m fin
        by (simp add: unhooked_def afterDispose_def obj_def [symmetric] rest_def [symmetric]
            obj'_def n_def sw)
      with r u show ?thesis by (simp add: dispose_def thenE_def)
    qed
  qed
qed

lemma set_handlersOf: "set (handlersOf obj) = held obj"
  by (cases "editorMouseMoveHandler obj"; cases "terminalInstanceCreatedHandler obj";
      cases "terminalInstanceDisposedHandler obj") (auto simp: handlersOf_def held_def)

lemma field_held: "field_of l obj = Some i \<Longrightarrow> i \<in> held obj"
  by (cases l) (auto simp: field_of_def held_def)

lemma held_disjoint:
  assumes "fields_ok xs d od" and "fields_ok xs c oc" and "d \<noteq> c"
  shows "held od \<inter> held oc = {}"
proof (rule ccontr)
  assume "held od \<inter> held oc \<noteq> {}"
  then obtain h where "h \<in> held od" "h \<in> held oc" by blast
  with assms(1,2) obtain l l' where "subscribed xs h l" "owner l = Some d"
    "subscribed xs h l'" "owner l' = Some c"
    using held_owner by metis
  with assms(3) show False using subscribed_inj by fastforce
qed

lemma hooks_not_held:
  assumes "fields_ok xs d od" and "fields_ok xs c oc"
    and "terminalInstanceCreatedHandler oc \<noteq> None"
    and "h \<in> set (hooksOf (terminalHooks oc))"
  shows "h \<notin> held od"
proof
  assume "h \<in> held od"
  with assms(1) obtain l where l: "subscribed xs h l" "owner l = Some d"
    using held_owner by blast
  from assms(2,3,4) obtain t where "listens xs h (TerminalMouseMoveListener t)"
    by (auto simp: fields_ok_def hooksOf_mem list_all_iff hookFor_def split: option.splits)
  with l(1) have "l = TerminalMouseMoveListener t"
    using listens_inj subscribed_listens by blast
  with l(2) show False by simp
qed

lemma hd_filter_other: "xs \<noteq> [] \<Longrightarrow> hd xs \<noteq> c \<Longrightarrow> hd (filter (\<lambda>d. d \<noteq> c) xs) = hd xs"
  by (cases xs) auto

lemma owner_after_retire:
  assumes s: "consistent s" and c: "c \<in> set (Instances s)"
    and i: "subscribed (subs s) i l" "i \<notin> held (objs s ! c)" and o: "owner l = Some d"
  shows "d \<in> set (filter (\<lambda>d. d \<noteq> c) (Instances s)) \<and> field_of l (objs s ! d) = Some i"
proof -
  from consistent_owner [OF s i(1)] o have d: "d \<in> set (Instances s)"
    "field_of l (objs s ! d) = Some i" by (simp_all add: owner_ok_iff)
  with i(2) have "d \<noteq> c" using field_held by blast
  with d show ?thesis by simp
qed

lemma afterDispose_consistent:
  assumes s: "consistent s" and c: "c \<in> set (Instances s)"
  shows "consistent (afterDispose c s)"
proof -
  define obj where "obj = objs s ! c"
  define rest where "rest = filter (\<lambda>d. d \<noteq> c) (Instances s)"
  note f = consistent_fields [OF s c, folded obj_def]
  note b = consistent_bound [OF s c]
  have dr: "distinct rest" using consistent_distinct [OF s] by (simp add: rest_def)
  have inr: "d \<in> set (Instances s) \<and> d \<noteq> c" if "d \<in> set rest" for d
    using that by (simp add: rest_def)
  have fo: "fields_ok (offs (handlersOf obj) (subs s)) d (objs s ! d)" if "d \<in> set rest" for d
  proof (rule fields_ok_offs)
    from inr [OF that] have d: "d \<in> set (Instances s)" "d \<noteq> c" by simp_all
    show "fields_ok (subs s) d (objs s ! d)" using consistent_fields [OF s d(1)] .
    then show "set (handlersOf obj) \<inter> held (objs s ! d) = {}"
      using held_disjoint [OF _ f d(2)] by (auto simp: set_handlersOf)
  qed
  have ow: "d \<in> set rest \<and> field_of l (objs s ! d) = Some i"
    if "subscribed (subs s) i l" "i \<notin> set (handlersOf obj)" "owner l = Some d" for i l d
    using owner_after_retire [OF s c that(1) _ that(3)] that(2)
    by (simp add: set_handlersOf obj_def rest_def)
  show ?thesis
  proof (cases "terminalInstanceCreatedHandler obj")
    case None
    have a: "afterDispose c s = s\<lparr>Instances := rest, subs := offs (handlersOf obj) (subs s),
       objs := (objs s)[c := obj\<lparr>editorMouseMoveHandler := None\<rparr>]\<rparr>"
      using None by (simp add: afterDispose_def obj_def rest_def)
    have nm: "\<not> manageTerminals s c" using None by (simp add: manageTerminals_def obj_def)
    with consistent_manager [OF s c] have hdc: "hd (Instances s) \<noteq> c" by auto
    have hdr: "hd rest = hd (Instances s)"
      unfolding rest_def using c hdc by (intro hd_filter_other) auto
    show ?thesis
    proof (rule consistentI)
      show "distinct (Instances (afterDispose c s))" using dr by (simp add: a)
      show "d < length (objs (afterDispose c s))" if "d \<in> set (Instances (afterDispose c s))" for d
        using that inr [of d] consistent_bound [OF s, of d] by (simp add: a)
      show "fields_ok (subs (afterDispose c s)) d (objs (afterDispose c s) ! d)"
        if "d \<in> set (Instances (afterDispose c s))" for d
        using that fo [of d] inr [of d] by (simp add: a)
      show "manageTerminals (afterDispose c s) d \<longleftrightarrow> d = hd (Instances (afterDispose c s))"
        if "d \<in> set (Instances (afterDispose c s))" for d
        using that inr [of d] consistent_manager [OF s, of d]
        by (simp add: a hdr manageTerminals_def)
      show "owner_ok (Instances (afterDispose c s)) (objs (afterDispose c s)) i l"
        if "subscribed (subs (afterDispose c s)) i l" for i l
      proof (cases "owner l")
        case None
        then show ?thesis by (simp add: owner_ok_iff)
      next
        case (Some d)
        from that have "subscribed (subs s) i l" "i \<notin> set (handlersOf obj)" by (simp_all add: a)
        from ow [OF this Some] inr [of d] Some show ?thesis
          by (simp add: owner_ok_iff a)
      qed
    qed
  next
    case (Some hc)
    with f obtain hd' m where d: "terminalInstanceDisposedHandler obj = Some hd'"
      and m: "terminalHooks obj = Some m" "entries m = []"
      "list_all (hookFor (subs s)) (props m)"
      by (auto simp: fields_ok_def split: option.splits)
    have mc: "manageTerminals s c" using Some by (simp add: manageTerminals_def obj_def)
    with consistent_manager [OF s c] have hdc: "hd (Instances s) = c" by auto
    have nm: "\<not> manageTerminals s d" if "d \<in> set rest" for d
      using inr [OF that] consistent_manager [OF s, of d] hdc by auto
    show ?thesis
    proof (cases rest)
      case Nil
      have a: "afterDispose c s = s\<lparr>Instances := [],
         subs := offs (handlersOf obj @ hooksOf (terminalHooks obj)) (subs s),
         objs := (objs s)[c := obj\<lparr>editorMouseMoveHandler := None\<rparr>]\<rparr>"
        using Some Nil by (simp add: afterDispose_def obj_def [symmetric] rest_def [symmetric])
      show ?thesis
      proof (rule consistentI)
        show "owner_ok (Instances (afterDispose c s)) (objs (afterDispose c s)) i l"
          if "subscribed (subs (afterDispose c s)) i l" for i l
        proof (cases "owner l")
          case None
          then show ?thesis by (simp add: owner_ok_iff)
        next
          case (Some d)
          from that have "subscribed (subs s) i l" "i \<notin> set (handlersOf obj)" by (simp_all add: a)
          from ow [OF this Some] Nil show ?thesis by simp
        qed
      qed (simp_all add: a)
    next
      case (Cons other r')
      then have "other \<in> set rest" by simp
      note oi = inr [OF this]
      note bo = consistent_bound [OF s oi [THEN conjunct1]]
      define n where "n = length (subs s)"
      define new where "new = [(InstanceCreatedListener other, True),
                (InstanceDisposedListener other, True)]"
      define obj' where "obj' = (objs s ! other)
            \<lparr>terminalHooks := Some m,
              terminalInstanceCreatedHandler := Some n,
              terminalInstanceDisposedHandler := Some (Suc n)\<rparr>"
      have a: "afterDispose c s = s\<lparr>Instances := rest,
         subs := offs (handlersOf obj) (subs s) @ new,
         objs := (objs s)[other := obj',
            c := obj\<lparr>editorMouseMoveHandler := None, terminalHooks := Some new_Map\<rparr>]\<rparr>"
        using Some Cons m
        by (simp add: afterDispose_def obj_def [symmetric] rest_def [symmetric] n_def new_def obj'_def)
      have nth: "objs (afterDispose c s) ! d = (if d = other then obj' else objs s ! d)"
        if "d \<in> set rest" for d
        using inr [OF that] bo by (simp add: a nth_list_update)
      have fother: "fields_ok (offs (handlersOf obj) (subs s) @ new) other obj'"
      proof -
        have "fields_ok (offs (handlersOf obj) (subs s)) other (objs s ! other)"
          using fo \<open>other \<in> set rest\<close> by blast
        moreover have "list_all (hookFor (offs (handlersOf obj) (subs s) @ new)) (props m)"
          using m(3) by (simp add: list_all_iff hookFor_def)
        ultimately show ?thesis
          using m(2)
          by (auto simp: fields_ok_def obj'_def new_def n_def split: option.splits)
      qed
      show ?thesis
      proof (rule consistentI)
        show "distinct (Instances (afterDispose c s))" using dr by (simp add: a)
        show "d < length (objs (afterDispose c s))" if "d \<in> set (Instances (afterDispose c s))" for d
          using that inr [of d] consistent_bound [OF s, of d] by (simp add: a)
        show "fields_ok (subs (afterDispose c s)) d (objs (afterDispose c s) ! d)"
          if "d \<in> set (Instances (afterDispose c s))" for d
        proof -
          from that have d: "d \<in> set rest" by (simp add: a)
          show ?thesis
          proof (cases "d = other")
            case True
            with fother nth [OF d] show ?thesis by (simp add: a)
          next
            case False
            with fo [OF d] nth [OF d] show ?thesis
              by (simp add: a fields_ok_append del: subscribed_append)
          qed
        qed
        show "manageTerminals (afterDispose c s) d \<longleftrightarrow> d = hd (Instances (afterDispose c s))"
          if "d \<in> set (Instances (afterDispose c s))" for d
        proof -
          from that have d: "d \<in> set rest" by (simp add: a)
          from nm [OF d] nth [OF d] Cons show ?thesis
            by (auto simp: manageTerminals_def a obj'_def)
        qed
        show "owner_ok (Instances (afterDispose c s)) (objs (afterDispose c s)) i l"
          if "subscribed (subs (afterDispose c s)) i l" for i l
        proof -
          from that have "(subscribed (subs s) i l \<and> i \<notin> set (handlersOf obj)) \<or>
              (i = n \<and> l = InstanceCreatedListener other) \<or>
              (i = Suc n \<and> l = InstanceDisposedListener other)"
            by (auto simp: a new_def n_def)
          then show ?thesis
          proof (elim disjE conjE)
            assume old: "subscribed (subs s) i l" "i \<notin> set (handlersOf obj)"
            show ?thesis
            proof (cases "owner l")
              case None
              then show ?thesis by (simp add: owner_ok_iff)
            next
              case (Some d)
              from ow [OF old Some] have d: "d \<in> set rest" "field_of l (objs s ! d) = Some i"
                by simp_all
              have "field_of l (objs (afterDispose c s) ! d) = Some i"
              proof (cases "d = other")
                case False
                with d nth [OF d(1)] show ?thesis by simp
              next
                case True
                from nm [OF d(1)] consistent_fields [OF s, of d] inr [OF d(1)]
                have "terminalInstanceCreatedHandler (objs s ! d) = None"
                  "terminalInstanceDisposedHandler (objs s ! d) = None"
                  by (auto simp: manageTerminals_def fields_ok_def)
                with d True Some nth [OF d(1)] show ?thesis
                  by (cases l) (auto simp: field_of_def obj'_def)
              qed
              with Some d(1) show ?thesis by (simp add: owner_ok_iff a)
            qed
          next
            assume "i = n" "l = InstanceCreatedListener other"
            with \<open>other \<in> set rest\<close> nth [of other] show ?thesis by (simp add: a obj'_def)
          next
            assume "i = Suc n" "l = InstanceDisposedListener other"
            with \<open>other \<in> set rest\<close> nth [of other] show ?thesis by (simp add: a obj'_def)
          qed
        qed
      qed
    qed
  qed
qed

lemma each_establish:
  assumes "P s"
    and "\<And>x s. x \<in> set xs \<Longrightarrow> P s \<Longrightarrow>
           \<exists>s'. f x s = Inr s' \<and> P s' \<and> Q x s' \<and> (\<forall>y. Q y s \<longrightarrow> Q y s')"
  shows "\<exists>s'. each f xs s = Inr s' \<and> P s' \<and> (\<forall>x \<in> set xs. Q x s') \<and> (\<forall>y. Q y s \<longrightarrow> Q y s')"
  using assms
proof (induction xs arbitrary: s)
  case Nil
  then show ?case by simp
next
  case (Cons x xs)
  from Cons.prems(2) [of x s] Cons.prems(1) obtain s1 where
    s1: "f x s = Inr s1" "P s1" "Q x s1" "\<forall>y. Q y s \<longrightarrow> Q y s1" by auto
  from Cons.IH [OF s1(2)] Cons.prems(2) obtain s' where
    s': "each f xs s1 = Inr s'" "P s'" "\<forall>x \<in> set xs. Q x s'" "\<forall>y. Q y s1 \<longrightarrow> Q y s'"
    by (metis list.set_intros(2))
  with s1 show ?case by (auto simp: thenE_def)
qed

lemma each_preserve:
  assumes "P s"
    and "\<And>x s. x \<in> set xs \<Longrightarrow> P s \<Longrightarrow> \<exists>s'. f x s = Inr s' \<and> P s'"
  shows "\<exists>s'. each f xs s = Inr s' \<and> P s'"
  using each_establish [where Q = "\<lambda>_ _. True" and P = P and f = f and xs = xs and s = s] assms
  by auto

lemma map_filter_mem_set:
  "y \<in> set (List.map_filter f xs) \<longleftrightarrow> (\<exists>x \<in> set xs. f x = Some y)"
  by (induction xs) (auto split: option.splits)

lemma map_filter_mem:
  "y \<in> set (List.map_filter f xs) \<longleftrightarrow> (\<exists>i < length xs. f (xs ! i) = Some y)"
  unfolding map_filter_mem_set by (metis in_set_conv_nth)

lemma map_filter_none: "(\<forall>i < length xs. f (xs ! i) = None) \<Longrightarrow> List.map_filter f xs = []"
  by (auto simp: List.map_filter_def filter_empty_conv in_set_conv_nth)

lemma map_filter_unique:
  assumes "i < length xs" and "f (xs ! i) = Some y"
    and "\<forall>j < length xs. j \<noteq> i \<longrightarrow> f (xs ! j) = None"
  shows "List.map_filter f xs = [y]"
proof -
  have xs: "xs = take i xs @ xs ! i # drop (Suc i) xs"
    using assms(1) by (simp add: id_take_nth_drop)
  have 1: "List.map_filter f (take i xs) = []"
    using assms(1,3) by (intro map_filter_none) auto
  have 2: "List.map_filter f (drop (Suc i) xs) = []"
    using assms(1,3) by (intro map_filter_none) auto
  have "List.map_filter f xs = List.map_filter f (take i xs @ xs ! i # drop (Suc i) xs)"
    using xs by simp
  also have "\<dots> = [y]"
    using 1 2 assms(2) by (simp add: List.map_filter_def)
  finally show ?thesis .
qed

lemma configurationListeners_mem:
  "c \<in> set (configurationListeners e s) \<longleftrightarrow> (\<exists>i. subscribed (subs s) i (ConfigurationListener e c))"
proof -
  have "(case fst la of ConfigurationListener e' c \<Rightarrow> if snd la \<and> e' = e then Some c else None
              | _ \<Rightarrow> None) = Some c \<longleftrightarrow> la = (ConfigurationListener e c, True)" for la
    by (cases la; cases "fst la") (auto split: if_splits)
  then show ?thesis
    by (auto simp: configurationListeners_def map_filter_mem subscribed_def)
qed

lemma instanceCreatedListeners_mem:
  "c \<in> set (instanceCreatedListeners s) \<longleftrightarrow> (\<exists>i. subscribed (subs s) i (InstanceCreatedListener c))"
proof -
  have "(case fst la of InstanceCreatedListener c \<Rightarrow> if snd la then Some c else None
              | _ \<Rightarrow> None) = Some c \<longleftrightarrow> la = (InstanceCreatedListener c, True)" for la
    by (cases la; cases "fst la") (auto split: if_splits)
  then show ?thesis
    by (auto simp: instanceCreatedListeners_def map_filter_mem subscribed_def)
qed

lemma instanceDisposedListeners_mem:
  "c \<in> set (instanceDisposedListeners s) \<longleftrightarrow> (\<exists>i. subscribed (subs s) i (InstanceDisposedListener c))"
proof -
  have "(case fst la of InstanceDisposedListener c \<Rightarrow> if snd la then Some c else None
              | _ \<Rightarrow> None) = Some c \<longleftrightarrow> la = (InstanceDisposedListener c, True)" for la
    by (cases la; cases "fst la") (auto split: if_splits)
  then show ?thesis
    by (auto simp: instanceDisposedListeners_def map_filter_mem subscribed_def)
qed

lemma configurationListeners_set:
  assumes "consistent s"
  shows "set (configurationListeners e s) = {c \<in> set (Instances s). editor (objs s ! c) = e}"
proof (intro set_eqI iffI)
  fix c assume "c \<in> set (configurationListeners e s)"
  then obtain i where i: "subscribed (subs s) i (ConfigurationListener e c)"
    by (auto simp: configurationListeners_mem)
  from consistent_owner [OF assms i] have c: "c \<in> set (Instances s)" by simp
  from consistent_fields [OF assms c] obtain j where
    "subscribed (subs s) j (ConfigurationListener (editor (objs s ! c)) c)"
    by (auto simp: fields_ok_def)
  moreover from consistent_owner [OF assms this] consistent_owner [OF assms i] have "j = i" by simp
  ultimately have "editor (objs s ! c) = e" using i subscribed_inj by fastforce
  with c show "c \<in> {c \<in> set (Instances s). editor (objs s ! c) = e}" by simp
next
  fix c assume "c \<in> {c \<in> set (Instances s). editor (objs s ! c) = e}"
  then have c: "c \<in> set (Instances s)" "editor (objs s ! c) = e" by simp_all
  from consistent_fields [OF assms c(1)] c(2) show "c \<in> set (configurationListeners e s)"
    by (auto simp: fields_ok_def configurationListeners_mem)
qed

lemma instanceCreatedListeners_set:
  assumes "consistent s"
  shows "set (instanceCreatedListeners s) = {c \<in> set (Instances s). manageTerminals s c}"
proof (intro set_eqI iffI)
  fix c assume "c \<in> set (instanceCreatedListeners s)"
  then obtain i where i: "subscribed (subs s) i (InstanceCreatedListener c)"
    by (auto simp: instanceCreatedListeners_mem)
  from consistent_owner [OF assms i]
  show "c \<in> {c \<in> set (Instances s). manageTerminals s c}" by (simp add: manageTerminals_def)
next
  fix c assume "c \<in> {c \<in> set (Instances s). manageTerminals s c}"
  then have c: "c \<in> set (Instances s)" "manageTerminals s c" by simp_all
  from consistent_fields [OF assms c(1)] c(2) show "c \<in> set (instanceCreatedListeners s)"
    by (auto simp: fields_ok_def instanceCreatedListeners_mem manageTerminals_def)
qed

lemma instanceDisposedListeners_set:
  assumes "consistent s"
  shows "set (instanceDisposedListeners s) = {c \<in> set (Instances s). manageTerminals s c}"
proof (intro set_eqI iffI)
  fix c assume "c \<in> set (instanceDisposedListeners s)"
  then obtain i where i: "subscribed (subs s) i (InstanceDisposedListener c)"
    by (auto simp: instanceDisposedListeners_mem)
  from consistent_owner [OF assms i] have c: "c \<in> set (Instances s)"
    "terminalInstanceDisposedHandler (objs s ! c) = Some i" by simp_all
  from consistent_fields [OF assms c(1)] c(2)
  show "c \<in> {c \<in> set (Instances s). manageTerminals s c}"
    using c(1) by (auto simp: manageTerminals_def fields_ok_def split: option.splits)
next
  fix c assume "c \<in> {c \<in> set (Instances s). manageTerminals s c}"
  then have c: "c \<in> set (Instances s)" "manageTerminals s c" by simp_all
  from consistent_fields [OF assms c(1)] c(2) show "c \<in> set (instanceDisposedListeners s)"
    by (auto simp: fields_ok_def instanceDisposedListeners_mem manageTerminals_def split: option.splits)
qed

lemma synced_hooked:
  "c < length (objs s) \<Longrightarrow> editorMouseMoveHandler (objs s ! c) = None \<Longrightarrow> synced (hooked c s) c"
  by (simp add: synced_def hooked_def Let_def)

lemma synced_cong:
  "objs s' ! d = objs s ! d \<Longrightarrow> focusOnHover s' = focusOnHover s \<Longrightarrow> synced s' d = synced s d"
  by (simp add: synced_def)

lemma unhooked_nth_other: "d \<noteq> c \<Longrightarrow> objs (unhooked c s) ! d = objs s ! d"
  by (simp add: unhooked_nth)

lemma rehook:
  assumes s: "consistent s" and c: "c \<in> set (Instances s)"
  shows "unhookEvents c s = Inr (unhooked c s)"
    and "hookEvents c (unhooked c s) = Inr (hooked c (unhooked c s))"
    and "consistent (hooked c (unhooked c s))"
    and "synced (hooked c (unhooked c s)) c"
proof -
  note b = consistent_bound [OF s c]
  note u = unhooked_consistent [OF s c]
  have c': "c \<in> set (Instances (unhooked c s))" using c by simp
  have n: "editorMouseMoveHandler (objs (unhooked c s) ! c) = None"
    using b by (simp add: unhooked_nth)
  show "unhookEvents c s = Inr (unhooked c s)"
    using b consistent_fields [OF s c] by (rule unhookEvents_eq)
  show "hookEvents c (unhooked c s) = Inr (hooked c (unhooked c s))"
  proof (rule hookEvents_eq)
    show "c < length (objs (unhooked c s))" using b by simp
    show "manageTerminals (unhooked c s) c \<longrightarrow> terminalHooks (objs (unhooked c s) ! c) \<noteq> None"
      using consistent_fields [OF u c']
      by (auto simp: manageTerminals_def fields_ok_def split: option.splits)
  qed
  show "consistent (hooked c (unhooked c s))" using u c' n by (rule hooked_consistent)
  show "synced (hooked c (unhooked c s)) c" using b n by (simp add: synced_hooked)
qed

lemma onDidChangeConfiguration_eq:
  assumes "consistent s" and "c \<in> set (Instances s)"
  shows "onDidChangeConfiguration ev c s =
           Inr (if contribInfo ev then hooked c (unhooked c s) else s)"
  using rehook(1,2) [OF assms] by (simp add: onDidChangeConfiguration_def thenE_def)

lemma consistent_focusOnHover_update [simp]:
  "consistent (s\<lparr>focusOnHover := F\<rparr>) = consistent s"
  by (simp add: consistent_def subs_ok_def manageTerminals_def)

lemma consistent_terminalInstances_update [simp]:
  "consistent (s\<lparr>terminalInstances := T\<rparr>) = consistent s"
  by (simp add: consistent_def subs_ok_def manageTerminals_def)

lemma fireDidChangeConfiguration_consistent:
  assumes s: "consistent s"
  shows "\<exists>s'. fireDidChangeConfiguration e ev s = Inr s' \<and> consistent s' \<and>
           Instances s' = Instances s \<and> focusOnHover s' = focusOnHover s \<and>
           terminalInstances s' = terminalInstances s \<and> length (objs s') = length (objs s) \<and>
           (contribInfo ev \<longrightarrow> (\<forall>c \<in> set (Instances s). editor (objs s ! c) = e \<longrightarrow> synced s' c)) \<and>
           (\<forall>c. synced s c \<longrightarrow> synced s' c) \<and>
           (\<not> contribInfo ev \<longrightarrow> s' = s)"
proof -
  define P where "P = (\<lambda>s'. consistent s' \<and> Instances s' = Instances s \<and>
      focusOnHover s' = focusOnHover s \<and> terminalInstances s' = terminalInstances s \<and>
      length (objs s') = length (objs s) \<and> (\<not> contribInfo ev \<longrightarrow> s' = s))"
  define Q where "Q = (\<lambda>c s'. contribInfo ev \<longrightarrow> synced s' c)"
  define R where "R = (\<lambda>c s'. synced s' c)"
  have P: "P s" using s by (simp add: P_def)
  have cs: "set (configurationListeners e s) \<subseteq> set (Instances s)"
    using configurationListeners_set [OF s] by auto
  have step: "\<exists>s''. onDidChangeConfiguration ev c s' = Inr s'' \<and> P s'' \<and> Q c s'' \<and>
       (\<forall>y. Q y s' \<longrightarrow> Q y s'')"
    if "c \<in> set (configurationListeners e s)" "P s'" for c s'
  proof -
    from that cs have s': "consistent s'" and c: "c \<in> set (Instances s')" by (auto simp: P_def)
    show ?thesis
    proof (cases "contribInfo ev")
      case False
      with that(2) onDidChangeConfiguration_eq [OF s' c, of ev] show ?thesis
        by (simp add: Q_def)
    next
      case True
      let ?s'' = "hooked c (unhooked c s')"
      have "synced ?s'' y" if "synced s' y" for y
      proof (cases "y = c")
        case True
        then show ?thesis using rehook(4) [OF s' c] by simp
      next
        case False
        then have "objs ?s'' ! y = objs s' ! y" by (simp add: hooked_nth_other unhooked_nth_other)
        with that show ?thesis using synced_cong [of ?s'' y s'] by simp
      qed
      with True \<open>P s'\<close> onDidChangeConfiguration_eq [OF s' c, of ev] rehook(3,4) [OF s' c]
      show ?thesis by (simp add: P_def Q_def)
    qed
  qed
  from each_establish [of P s "configurationListeners e s" "onDidChangeConfiguration ev" Q, OF P step]
  obtain s' where s': "each (onDidChangeConfiguration ev) (configurationListeners e s) s = Inr s'"
    "P s'" "\<forall>c \<in> set (configurationListeners e s). Q c s'" "\<forall>y. Q y s \<longrightarrow> Q y s'"
    by blast
  have "synced s' c" if "synced s c" for c
  proof (cases "contribInfo ev")
    case True
    with that s'(4) show ?thesis by (simp add: Q_def)
  next
    case False
    with s'(2) that show ?thesis by (simp add: P_def)
  qed
  with s' configurationListeners_set [OF s] show ?thesis
    by (auto simp: fireDidChangeConfiguration_def P_def Q_def)
qed

lemma fireInstanceCreated_consistent:
  assumes s: "consistent s"
  shows "\<exists>s'. fireInstanceCreated t s = Inr s' \<and> consistent s' \<and>
           Instances s' = Instances s \<and> focusOnHover s' = focusOnHover s \<and>
           terminalInstances s' = terminalInstances s \<and> length (objs s') = length (objs s) \<and>
           (\<forall>c. synced s' c = synced s c)"
proof -
  define P where "P = (\<lambda>s'. consistent s' \<and> Instances s' = Instances s \<and>
      focusOnHover s' = focusOnHover s \<and> terminalInstances s' = terminalInstances s \<and>
      length (objs s') = length (objs s) \<and> (\<forall>c. manageTerminals s' c = manageTerminals s c) \<and>
      (\<forall>c. synced s' c = synced s c))"
  have P: "P s" using s by (simp add: P_def)
  have step: "\<exists>s''. onTerminalCreated c t s' = Inr s'' \<and> P s''"
    if "c \<in> set (instanceCreatedListeners s)" "P s'" for c s'
  proof -
    from that instanceCreatedListeners_set [OF s]
    have s': "consistent s'" and c: "c \<in> set (Instances s')" "manageTerminals s' c"
      by (auto simp: P_def)
    from consistent_fields [OF s' c(1)] c(2) have "terminalHooks (objs s' ! c) \<noteq> None"
      by (auto simp: fields_ok_def manageTerminals_def split: option.splits)
    then have "onTerminalCreated c t s' = Inr (withHook c t s')" by (rule onTerminalCreated_eq)
    with that(2) withHook_consistent [OF s' c(1), of t] show ?thesis by (simp add: P_def)
  qed
  from each_preserve [of P s "instanceCreatedListeners s" "\<lambda>c. onTerminalCreated c t", OF P step]
  show ?thesis by (auto simp: fireInstanceCreated_def P_def)
qed

lemma fireInstanceDisposed_eq:
  assumes s: "consistent s"
  shows "fireInstanceDisposed t s = Inr s"
proof -
  have step: "\<exists>s''. onTerminalDisposed c t s' = Inr s'' \<and> s'' = s"
    if "c \<in> set (instanceDisposedListeners s)" "s' = s" for c s'
  proof -
    from that instanceDisposedListeners_set [OF s]
    have c: "c \<in> set (Instances s)" "manageTerminals s c" by auto
    from consistent_fields [OF s c(1)] c(2) obtain m where
      "terminalHooks (objs s ! c) = Some m" "entries m = []"
      by (auto simp: fields_ok_def manageTerminals_def split: option.splits)
    then show ?thesis using that(2) by (simp add: onTerminalDisposed_eq)
  qed
  from each_preserve [of "\<lambda>s'. s' = s" s "instanceDisposedListeners s" "\<lambda>c. onTerminalDisposed c t", OF _ step]
  show ?thesis by (auto simp: fireInstanceDisposed_def)
qed

lemma afterDispose_Instances [simp]:
  "Instances (afterDispose c s) = filter (\<lambda>d. d \<noteq> c) (Instances s)"
  by (cases "terminalInstanceCreatedHandler (objs s ! c)"; cases "filter (\<lambda>d. d \<noteq> c) (Instances s)")
     (simp_all add: afterDispose_def)

lemma afterDispose_fields [simp]:
  "focusOnHover (afterDispose c s) = focusOnHover s"
  "terminalInstances (afterDispose c s) = terminalInstances s"
  "length (objs (afterDispose c s)) = length (objs s)"
  by (cases "terminalInstanceCreatedHandler (objs s ! c)"; cases "filter (\<lambda>d. d \<noteq> c) (Instances s)";
      simp add: afterDispose_def)+

lemma afterDispose_obj_fields:
  assumes "d \<noteq> c"
  shows "editor (objs (afterDispose c s) ! d) = editor (objs s ! d)"
    and "didChangeConfigurationHandler (objs (afterDispose c s) ! d) =
         didChangeConfigurationHandler (objs s ! d)"
    and "editorMouseMoveHandler (objs (afterDispose c s) ! d) = editorMouseMoveHandler (objs s ! d)"
proof -
  have "editor (objs (afterDispose c s) ! d) = editor (objs s ! d) \<and>
        didChangeConfigurationHandler (objs (afterDispose c s) ! d) =
          didChangeConfigurationHandler (objs s ! d) \<and>
        editorMouseMoveHandler (objs (afterDispose c s) ! d) = editorMouseMoveHandler (objs s ! d)"
  proof (cases "terminalInstanceCreatedHandler (objs s ! c)")
    case None
    with assms show ?thesis by (simp add: afterDispose_def)
  next
    case (Some hc)
    show ?thesis
    proof (cases "filter (\<lambda>d. d \<noteq> c) (Instances s)")
      case Nil
      with Some assms show ?thesis by (simp add: afterDispose_def)
    next
      case (Cons other rest)
      with Some assms show ?thesis
        by (cases "d = other"; cases "other < length (objs s)")
           (simp_all add: afterDispose_def list_update_beyond)
    qed
  qed
  then show "editor (objs (afterDispose c s) ! d) = editor (objs s ! d)"
    and "didChangeConfigurationHandler (objs (afterDispose c s) ! d) =
         didChangeConfigurationHandler (objs s ! d)"
    and "editorMouseMoveHandler (objs (afterDispose c s) ! d) = editorMouseMoveHandler (objs s ! d)"
    by simp_all
qed

lemma synced_afterDispose: "d \<noteq> c \<Longrightarrow> synced (afterDispose c s) d = synced s d"
  by (simp add: synced_def afterDispose_obj_fields)

lemma registered_fields [simp]:
  "Instances (registered e s) = Instances s @ [length (objs s)]"
  "focusOnHover (registered e s) = focusOnHover s"
  "terminalInstances (registered e s) = terminalInstances s"
  "length (objs (registered e s)) = Suc (length (objs s))"
  by (simp_all add: registered_def Let_def)

lemma registered_nth_old: "d < length (objs s) \<Longrightarrow> objs (registered e s) ! d = objs s ! d"
  by (simp add: registered_def Let_def nth_append)

lemma registered_nth_new:
  "editorMouseMoveHandler (objs (registered e s) ! length (objs s)) = None"
  "editor (objs (registered e s) ! length (objs s)) = e"
  by (simp_all add: registered_def Let_def)

lemma invariant_initial: "invariant (initial f ts)"
  by (simp add: invariant_def consistent_def subs_ok_def initial_def)

lemma invariantD: "invariant s \<Longrightarrow> consistent s"
  by (simp add: invariant_def)

lemma construct_invariant:
  assumes "invariant s"
  shows "\<exists>s'. construct e s = Inr s' \<and> invariant s' \<and>
           Instances s' = Instances s @ [length (objs s)] \<and>
           length (objs s') = Suc (length (objs s))"
proof -
  let ?c = "length (objs s)"
  let ?r = "registered e s"
  from assms have s: "consistent s" by (rule invariantD)
  have r: "consistent ?r" using s by (rule registered_consistent)
  have c: "?c \<in> set (Instances ?r)" by simp
  have h: "consistent (hooked ?c ?r)"
    using r c by (rule hooked_consistent) (simp add: registered_nth_new)
  have "synced (hooked ?c ?r) d" if "d \<in> set (Instances s) \<or> d = ?c" for d
  proof (cases "d = ?c")
    case True
    then show ?thesis by (simp add: synced_hooked registered_nth_new)
  next
    case False
    with that have d: "d \<in> set (Instances s)" by simp
    then have "d < ?c" using consistent_bound [OF s] by simp
    then have "objs (hooked ?c ?r) ! d = objs s ! d"
      using False by (simp add: hooked_nth_other registered_nth_old)
    moreover from assms d have "synced s d" by (simp add: invariant_def)
    ultimately show ?thesis using synced_cong [of "hooked ?c ?r" d s] by simp
  qed
  with h show ?thesis by (auto simp: construct_eq invariant_def)
qed

lemma dispose_invariant:
  assumes i: "invariant s" and c: "c \<in> set (Instances s)"
  shows "\<exists>s'. dispose c s = Inr s' \<and> invariant s' \<and>
           Instances s' = filter (\<lambda>d. d \<noteq> c) (Instances s) \<and>
           length (objs s') = length (objs s)"
proof -
  from i have s: "consistent s" by (rule invariantD)
  from i have "synced (afterDispose c s) d" if "d \<in> set (Instances s)" "d \<noteq> c" for d
    using that by (simp add: synced_afterDispose invariant_def)
  with afterDispose_consistent [OF s c] dispose_eq [OF s c] show ?thesis
    by (simp add: invariant_def)
qed

lemma setFocusOnHover_invariant:
  assumes i: "invariant s"
  shows "\<exists>s'. setFocusOnHover e b s = Inr s' \<and> invariant s' \<and>
           Instances s' = Instances s \<and> length (objs s') = length (objs s)"
proof -
  let ?s0 = "s\<lparr>focusOnHover := (focusOnHover s)(e := b)\<rparr>"
  from i have s0: "consistent ?s0" by (simp add: invariant_def)
  from fireDidChangeConfiguration_consistent [OF s0, of e "\<lparr>contribInfo = True\<rparr>"]
  obtain s' where s': "fireDidChangeConfiguration e \<lparr>contribInfo = True\<rparr> ?s0 = Inr s'"
    "consistent s'" "Instances s' = Instances s" "length (objs s') = length (objs s)"
    "\<forall>c \<in> set (Instances s). editor (objs s ! c) = e \<longrightarrow> synced s' c"
    "\<forall>c. synced ?s0 c \<longrightarrow> synced s' c"
    by auto
  have "synced s' c" if c: "c \<in> set (Instances s)" for c
  proof (cases "editor (objs s ! c) = e")
    case True
    with s'(5) c show ?thesis by simp
  next
    case False
    from i c have "synced s c" by (simp add: invariant_def)
    with False have "synced ?s0 c" by (simp add: synced_def)
    with s'(6) show ?thesis by simp
  qed
  with s' show ?thesis by (simp add: setFocusOnHover_def invariant_def)
qed

lemma otherConfigurationChange_eq:
  assumes "invariant s"
  shows "fireDidChangeConfiguration e \<lparr>contribInfo = False\<rparr> s = Inr s"
  using fireDidChangeConfiguration_consistent [OF invariantD [OF assms], of e "\<lparr>contribInfo = False\<rparr>"]
  by auto

lemma terminalCreated_invariant:
  assumes i: "invariant s"
  shows "\<exists>s'. terminalCreated t s = Inr s' \<and> invariant s' \<and>
           Instances s' = Instances s \<and> length (objs s') = length (objs s)"
proof -
  let ?s0 = "s\<lparr>terminalInstances := terminalInstances s @ [t]\<rparr>"
  from i have s0: "consistent ?s0" by (simp add: invariant_def)
  have "synced ?s0 c = synced s c" for c by (simp add: synced_def)
  with fireInstanceCreated_consistent [OF s0, of t] i show ?thesis
    by (auto simp: terminalCreated_def invariant_def)
qed

lemma terminalDisposed_invariant:
  assumes i: "invariant s"
  shows "\<exists>s'. terminalDisposed t s = Inr s' \<and> invariant s' \<and>
           Instances s' = Instances s \<and> length (objs s') = length (objs s)"
proof -
  let ?s0 = "s\<lparr>terminalInstances := filter (\<lambda>x. x \<noteq> t) (terminalInstances s)\<rparr>"
  from i have s0: "consistent ?s0" by (simp add: invariant_def)
  have "synced ?s0 c = synced s c" for c by (simp add: synced_def)
  with fireInstanceDisposed_eq [OF s0, of t] i show ?thesis
    by (auto simp: terminalDisposed_def invariant_def)
qed

lemma step_invariant:
  assumes i: "invariant s" and l: "legal (length (objs s)) (Instances s) (a # as)"
  shows "\<exists>s'. step a s = Inr s' \<and> invariant s' \<and>
           legal (length (objs s')) (Instances s') as \<and>
           liveAfter (length (objs s')) (Instances s') as =
             liveAfter (length (objs s)) (Instances s) (a # as)"
proof (cases a)
  case (Create e)
  with construct_invariant [OF i, of e] l show ?thesis by auto
next
  case (Dispose c)
  with l have "c \<in> set (Instances s)" by simp
  from dispose_invariant [OF i this] Dispose l show ?thesis by auto
next
  case (SetFocusOnHover e b)
  with setFocusOnHover_invariant [OF i, of e b] l show ?thesis by auto
next
  case (OtherConfigurationChange e)
  with otherConfigurationChange_eq [OF i, of e] i l show ?thesis by auto
next
  case (TerminalCreated t)
  with terminalCreated_invariant [OF i, of t] l show ?thesis by auto
next
  case (TerminalDisposed t)
  with terminalDisposed_invariant [OF i, of t] l show ?thesis by auto
qed

lemma exec_invariant:
  assumes "invariant s" and "legal (length (objs s)) (Instances s) as"
  shows "\<exists>s'. exec as s = Inr s' \<and> invariant s' \<and>
           Instances s' = liveAfter (length (objs s)) (Instances s) as"
  using assms
proof (induction as arbitrary: s)
  case Nil
  then show ?case by (simp add: exec_def)
next
  case (Cons a as)
  from step_invariant [OF Cons.prems] obtain s1 where
    s1: "step a s = Inr s1" "invariant s1" "legal (length (objs s1)) (Instances s1) as"
    "liveAfter (length (objs s1)) (Instances s1) as =
             liveAfter (length (objs s)) (Instances s) (a # as)" by blast
  from Cons.IH [OF s1(2,3)] s1(1,4) show ?case
    by (auto simp: exec_def thenE_def)
qed

lemma exec_initial:
  assumes "legal 0 [] as"
  shows "\<exists>s. exec as (initial f ts) = Inr s \<and> invariant s \<and> Instances s = liveAfter 0 [] as"
  using exec_invariant [OF invariant_initial, of f ts as] assms by (simp add: initial_def)

lemma liveAfter_sorted:
  assumes "sorted_wrt (<) live" and "\<forall>c \<in> set live. c < n"
  shows "sorted_wrt (<) (liveAfter n live as)"
  using assms
proof (induction n live as rule: liveAfter.induct)
  case (2 n live e as)
  have "sorted_wrt (<) (live @ [n])" using "2.prems" by (simp add: sorted_wrt_append)
  moreover have "\<forall>c \<in> set (live @ [n]). c < Suc n" using "2.prems" by (auto simp: less_Suc_eq)
  ultimately show ?case using "2.IH" by simp
next
  case (3 n live c as)
  have "sorted_wrt (<) (filter (\<lambda>x. x \<noteq> c) live)" using "3.prems" by (simp add: sorted_wrt_filter)
  then show ?case using "3.IH" "3.prems" by simp
qed simp_all

lemma filter_hd_distinct:
  "distinct (x # xs) \<Longrightarrow> filter (\<lambda>c. c = x) (x # xs) = [x]"
  by (auto simp: filter_empty_conv)

lemma managers_of_consistent:
  assumes s: "consistent s"
  shows "filter (manageTerminals s) (Instances s) = (case Instances s of [] \<Rightarrow> [] | c # cs \<Rightarrow> [c])"
proof (cases "Instances s")
  case Nil
  then show ?thesis by simp
next
  case (Cons c cs)
  have "filter (manageTerminals s) (Instances s) = filter (\<lambda>d. d = c) (Instances s)"
    using consistent_manager [OF s] Cons by (intro filter_cong) auto
  also have "\<dots> = [c]"
    using consistent_distinct [OF s] unfolding Cons by (rule filter_hd_distinct)
  finally show ?thesis using Cons by simp
qed

lemma instanceCreatedListeners_consistent:
  assumes s: "consistent s"
  shows "instanceCreatedListeners s = (case Instances s of [] \<Rightarrow> [] | c # cs \<Rightarrow> [c])"
proof (cases "Instances s")
  case Nil
  have "set (instanceCreatedListeners s) = {}"
    using instanceCreatedListeners_set [OF s] Nil by simp
  with Nil show ?thesis by simp
next
  case (Cons c cs)
  then have c: "c \<in> set (Instances s)" "c = hd (Instances s)" by simp_all
  with consistent_manager [OF s c(1)] have "manageTerminals s c" by simp
  with consistent_fields [OF s c(1)] obtain h where
    h: "subscribed (subs s) h (InstanceCreatedListener c)"
    by (auto simp: fields_ok_def manageTerminals_def)
  let ?f = "\<lambda>la. case fst la of InstanceCreatedListener c \<Rightarrow> if snd la then Some c else None
              | _ \<Rightarrow> None"
  have "List.map_filter ?f (subs s) = [c]"
  proof (rule map_filter_unique)
    show "h < length (subs s)" using h by (simp add: subscribed_def)
    show "?f (subs s ! h) = Some c" using h by (simp add: subscribed_def)
    show "\<forall>j<length (subs s). j \<noteq> h \<longrightarrow> ?f (subs s ! j) = None"
    proof (intro allI impI)
      fix j assume j: "j < length (subs s)" "j \<noteq> h"
      show "?f (subs s ! j) = None"
      proof (rule ccontr)
        assume "?f (subs s ! j) \<noteq> None"
        then obtain d where "subs s ! j = (InstanceCreatedListener d, True)"
          by (cases "subs s ! j"; cases "fst (subs s ! j)") (auto split: if_splits)
        with j(1) have sj: "subscribed (subs s) j (InstanceCreatedListener d)"
          by (simp add: subscribed_def)
        from consistent_owner [OF s sj] have d: "d \<in> set (Instances s)"
          "terminalInstanceCreatedHandler (objs s ! d) = Some j" by simp_all
        with consistent_manager [OF s d(1)] c(2) have "d = c" by (simp add: manageTerminals_def)
        with d(2) consistent_owner [OF s h] j(2) show False by simp
      qed
    qed
  qed
  with Cons show ?thesis by (simp add: instanceCreatedListeners_def)
qed

lemma instanceDisposedListeners_consistent:
  assumes s: "consistent s"
  shows "instanceDisposedListeners s = (case Instances s of [] \<Rightarrow> [] | c # cs \<Rightarrow> [c])"
proof (cases "Instances s")
  case Nil
  have "set (instanceDisposedListeners s) = {}"
    using instanceDisposedListeners_set [OF s] Nil by simp
  with Nil show ?thesis by simp
next
  case (Cons c cs)
  then have c: "c \<in> set (Instances s)" "c = hd (Instances s)" by simp_all
  with consistent_manager [OF s c(1)] have "manageTerminals s c" by simp
  with consistent_fields [OF s c(1)] obtain h where
    h: "subscribed (subs s) h (InstanceDisposedListener c)"
    by (auto simp: fields_ok_def manageTerminals_def split: option.splits)
  let ?f = "\<lambda>la. case fst la of InstanceDisposedListener c \<Rightarrow> if snd la then Some c else None
              | _ \<Rightarrow> None"
  have "List.map_filter ?f (subs s) = [c]"
  proof (rule map_filter_unique)
    show "h < length (subs s)" using h by (simp add: subscribed_def)
    show "?f (subs s ! h) = Some c" using h by (simp add: subscribed_def)
    show "\<forall>j<length (subs s). j \<noteq> h \<longrightarrow> ?f (subs s ! j) = None"
    proof (intro allI impI)
      fix j assume j: "j < length (subs s)" "j \<noteq> h"
      show "?f (subs s ! j) = None"
      proof (rule ccontr)
        assume "?f (subs s ! j) \<noteq> None"
        then obtain d where "subs s ! j = (InstanceDisposedListener d, True)"
          by (cases "subs s ! j"; cases "fst (subs s ! j)") (auto split: if_splits)
        with j(1) have sj: "subscribed (subs s) j (InstanceDisposedListener d)"
          by (simp add: subscribed_def)
        from consistent_owner [OF s sj] have d: "d \<in> set (Instances s)"
          "terminalInstanceDisposedHandler (objs s ! d) = Some j" by simp_all
        from consistent_fields [OF s d(1)] d(2) have "manageTerminals s d"
          by (auto simp: fields_ok_def manageTerminals_def split: option.splits)
        with consistent_manager [OF s d(1)] c(2) have "d = c" by simp
        with d(2) consistent_owner [OF s h] j(2) show False by simp
      qed
    qed
  qed
  with Cons show ?thesis by (simp add: instanceDisposedListeners_def)
qed

text \<open>
  Claim C8. After every construction and every disposal of a run (each disposal of a
  controller that is live when it is disposed, hence disposed once), the registry
  \<open>Instances\<close> is the list of the live controllers that the spec's data model defines
  (\<open>liveAfter\<close>: a construction appends the new instance at the end, a disposal removes
  the disposed instance and nothing else), in creation order: the objects are numbered
  as they are constructed, and the registry is strictly increasing. Changes of the
  configuration and terminal events may come between the constructions and disposals.
  The run does not end in a TypeError.
\<close>

theorem registry_mirrors_live:
  assumes "legal 0 [] as"
  shows "\<exists>s. exec as (initial f ts) = Inr s \<and> Instances s = liveAfter 0 [] as \<and>
             sorted_wrt (<) (Instances s)"
proof -
  from exec_initial [OF assms, of f ts] obtain s where
    "exec as (initial f ts) = Inr s" "Instances s = liveAfter 0 [] as" by blast
  moreover have "sorted_wrt (<) (liveAfter 0 [] as)" by (rule liveAfter_sorted) simp_all
  ultimately show ?thesis by simp
qed

text \<open>Three controllers are created and the first is disposed: the second and third remain.\<close>

theorem registry_mirrors_live_witness:
  "legal 0 [] [Create 0, Create 1, TerminalCreated 7, Dispose 0, Create 2] \<and>
   (\<exists>s. exec [Create 0, Create 1, TerminalCreated 7, Dispose 0, Create 2]
           (initial (\<lambda>e. True) [5]) = Inr s \<and>
        Instances s = [1, 2])"
proof -
  have l: "legal 0 [] [Create 0, Create 1, TerminalCreated 7, Dispose 0, Create 2]" by simp
  have "liveAfter 0 [] [Create 0, Create 1, TerminalCreated 7, Dispose 0, Create 2] = [1, 2]"
    by (simp add: numeral_2_eq_2)
  with registry_mirrors_live [OF l, of "\<lambda>e. True" "[5]"] l show ?thesis by auto
qed

text \<open>
  Claim C1. After every run of constructions and disposals (each disposal of a live
  instance; configuration changes and terminal events may come in between: every prefix
  of such a run is such a run, so this is every point between operations), the registry is
  the list \<open>liveAfter\<close> of the live controllers, those constructed and not disposed, and
  exactly one live controller holds the terminal-manager role when there is a live
  controller, none when there is none: the live controllers are pairwise different, the
  live controllers for which \<open>manageTerminals\<close> holds are the first live controller and no
  other, and the same controller and no other is subscribed to the terminal service's two
  events. With no live controller nobody is subscribed to them.
\<close>

theorem exactly_one_manager:
  assumes "legal 0 [] as"
  shows "\<exists>s. exec as (initial f ts) = Inr s \<and> Instances s = liveAfter 0 [] as \<and>
           distinct (liveAfter 0 [] as) \<and>
           filter (manageTerminals s) (liveAfter 0 [] as) =
             (case liveAfter 0 [] as of [] \<Rightarrow> [] | c # cs \<Rightarrow> [c]) \<and>
           instanceCreatedListeners s = (case liveAfter 0 [] as of [] \<Rightarrow> [] | c # cs \<Rightarrow> [c]) \<and>
           instanceDisposedListeners s = (case liveAfter 0 [] as of [] \<Rightarrow> [] | c # cs \<Rightarrow> [c])"
proof -
  from exec_initial [OF assms, of f ts] obtain s where
    s: "exec as (initial f ts) = Inr s" "invariant s" "Instances s = liveAfter 0 [] as" by blast
  then have c: "consistent s" by (simp add: invariant_def)
  from s(1) consistent_distinct [OF c] managers_of_consistent [OF c]
    instanceCreatedListeners_consistent [OF c] instanceDisposedListeners_consistent [OF c]
  have "exec as (initial f ts) = Inr s \<and> Instances s = liveAfter 0 [] as \<and>
           distinct (liveAfter 0 [] as) \<and>
           filter (manageTerminals s) (liveAfter 0 [] as) =
             (case liveAfter 0 [] as of [] \<Rightarrow> [] | c # cs \<Rightarrow> [c]) \<and>
           instanceCreatedListeners s = (case liveAfter 0 [] as of [] \<Rightarrow> [] | c # cs \<Rightarrow> [c]) \<and>
           instanceDisposedListeners s = (case liveAfter 0 [] as of [] \<Rightarrow> [] | c # cs \<Rightarrow> [c])"
    by (simp add: s(3))
  then show ?thesis by blast
qed

text \<open>
  After the first manager is disposed the second controller holds the role, and the third,
  created later, does not; the first, which is disposed, is not among the live controllers.
\<close>

theorem exactly_one_manager_witness:
  "legal 0 [] [Create 0, Create 1, Dispose 0, Create 2] \<and>
   liveAfter 0 [] [Create 0, Create 1, Dispose 0, Create 2] = [1, 2] \<and>
   (\<exists>s. exec [Create 0, Create 1, Dispose 0, Create 2] (initial (\<lambda>e. True) [5]) = Inr s \<and>
        Instances s = [1, 2] \<and> filter (manageTerminals s) [1, 2] = [1] \<and>
        instanceCreatedListeners s = [1] \<and> instanceDisposedListeners s = [1])"
proof -
  have l: "legal 0 [] [Create 0, Create 1, Dispose 0, Create 2]" by simp
  have a: "liveAfter 0 [] [Create 0, Create 1, Dispose 0, Create 2] = [1, 2]"
    by (simp add: numeral_2_eq_2)
  from exactly_one_manager [OF l, of "\<lambda>e. True" "[5]", unfolded a] l a
  show ?thesis by simp
qed

lemma afterDispose_non_manager:
  assumes "terminalInstanceCreatedHandler (objs s ! c) = None"
  shows "afterDispose c s =
     s\<lparr>Instances := filter (\<lambda>d. d \<noteq> c) (Instances s),
       subs := offs (handlersOf (objs s ! c)) (subs s),
       objs := (objs s)[c := (objs s ! c)\<lparr>editorMouseMoveHandler := None\<rparr>]\<rparr>"
  using assms by (simp add: afterDispose_def)

text \<open>
  Claim C10. Disposing a live controller \<open>c\<close> that does not hold the terminal-manager role
  leaves every other controller object as it was (so the manager's hook map and its two
  terminal-service handlers), leaves \<open>manageTerminals\<close> as it was for every controller and
  the first element of the registry, makes no new subscription, and leaves every
  subscription that does not call into \<open>c\<close> as it was, active or disposed (so the
  manager's two terminal-service subscriptions and every per-terminal hook). What it
  disposes is the configuration-change subscription of \<open>c\<close> and, when there is one, its
  editor mouse-move subscription.
\<close>

theorem dispose_non_manager_frame:
  assumes s: "consistent s" and c: "c \<in> set (Instances s)" and n: "\<not> manageTerminals s c"
  shows "\<exists>s'. dispose c s = Inr s' \<and>
     Instances s' = filter (\<lambda>d. d \<noteq> c) (Instances s) \<and>
     hd (Instances s') = hd (Instances s) \<and>
     (\<forall>d. d \<noteq> c \<longrightarrow> objs s' ! d = objs s ! d) \<and>
     (\<forall>d. manageTerminals s' d = manageTerminals s d) \<and>
     length (subs s') = length (subs s) \<and>
     (\<forall>i < length (subs s). owner (fst (subs s ! i)) \<noteq> Some c \<longrightarrow> subs s' ! i = subs s ! i) \<and>
     subscribed (subs s) (didChangeConfigurationHandler (objs s ! c))
       (ConfigurationListener (editor (objs s ! c)) c) \<and>
     \<not> snd (subs s' ! didChangeConfigurationHandler (objs s ! c)) \<and>
     (\<forall>h. editorMouseMoveHandler (objs s ! c) = Some h \<longrightarrow>
        subscribed (subs s) h (EditorMouseMoveListener (editor (objs s ! c)) c) \<and>
        \<not> snd (subs s' ! h)) \<and>
     focusOnHover s' = focusOnHover s \<and> terminalInstances s' = terminalInstances s"
proof -
  define obj where "obj = objs s ! c"
  note f = consistent_fields [OF s c, folded obj_def]
  note b = consistent_bound [OF s c]
  from n have cr: "terminalInstanceCreatedHandler (objs s ! c) = None"
    by (simp add: manageTerminals_def)
  let ?s' = "afterDispose c s"
  note a = afterDispose_non_manager [OF cr]
  have 1: "dispose c s = Inr ?s'" using s c by (rule dispose_eq)
  from n consistent_manager [OF s c] have "hd (Instances s) \<noteq> c" by auto
  moreover from c have "Instances s \<noteq> []" by auto
  ultimately have 2: "hd (Instances ?s') = hd (Instances s)"
    by (simp add: hd_filter_other)
  have 3: "objs ?s' ! d = objs s ! d" if "d \<noteq> c" for d
    using that by (simp add: a)
  have 4: "manageTerminals ?s' d = manageTerminals s d" for d
    by (cases "d = c"; cases "c < length (objs s)")
       (simp_all add: a manageTerminals_def list_update_beyond)
  have 5: "length (subs ?s') = length (subs s)" by (simp add: a)
  have nth: "subs ?s' ! i = (fst (subs s ! i), snd (subs s ! i) \<and> i \<notin> held obj)"
    if "i < length (subs s)" for i
    using that by (simp add: a offs_nth set_handlersOf obj_def)
  have 6: "subs ?s' ! i = subs s ! i"
    if "i < length (subs s)" "owner (fst (subs s ! i)) \<noteq> Some c" for i
  proof -
    have "i \<notin> held obj"
    proof
      assume "i \<in> held obj"
      with f obtain l where "subscribed (subs s) i l" "owner l = Some c"
        using held_owner by blast
      with that(2) show False by (simp add: subscribed_def)
    qed
    with nth [OF that(1)] show ?thesis by simp
  qed
  from f have 7: "subscribed (subs s) (didChangeConfigurationHandler obj)
       (ConfigurationListener (editor obj) c)"
    by (simp add: fields_ok_def)
  then have 8: "\<not> snd (subs ?s' ! didChangeConfigurationHandler obj)"
    using nth [of "didChangeConfigurationHandler obj"] by (simp add: subscribed_def held_def)
  have 9: "subscribed (subs s) h (EditorMouseMoveListener (editor obj) c) \<and> \<not> snd (subs ?s' ! h)"
    if "editorMouseMoveHandler obj = Some h" for h
  proof -
    from f that have h: "subscribed (subs s) h (EditorMouseMoveListener (editor obj) c)"
      by (simp add: fields_ok_def)
    with nth [of h] that show ?thesis by (simp add: subscribed_def held_def)
  qed
  from 1 2 3 4 5 6 7 8 9 show ?thesis
    unfolding obj_def by (intro exI [of _ ?s']) simp
qed

text \<open>
  Two controllers with the flag on and one terminal open; the second controller, which is
  not the manager, is disposed: the manager's object, with its hook for terminal 5, is as
  before, and what is disposed is the second controller's subscriptions 5 and 6.
\<close>

theorem dispose_non_manager_frame_witness:
  "\<exists>s s'. exec [Create 0, Create 1] (initial (flagOn [0, 1]) [5]) = Inr s \<and>
     Instances s = [0, 1] \<and> \<not> manageTerminals s 1 \<and> dispose 1 s = Inr s' \<and>
     Instances s' = [0] \<and> objs s' ! 0 = objs s ! 0 \<and>
     terminalHooks (objs s' ! 0) = Some \<lparr>entries = [], props = [(5, 4)]\<rparr> \<and>
     subs s' ! 4 = (TerminalMouseMoveListener 5, True) \<and>
     subs s' ! 1 = (InstanceCreatedListener 0, True) \<and>
     subs s' ! 2 = (InstanceDisposedListener 0, True) \<and>
     \<not> snd (subs s' ! 5) \<and> \<not> snd (subs s' ! 6)"
proof -
  have l: "legal 0 [] [Create 0, Create 1]" by simp
  from exec_initial [OF l, of "flagOn [0, 1]" "[5]"] obtain s where
    s: "exec [Create 0, Create 1] (initial (flagOn [0, 1]) [5]) = Inr s" "invariant s" by blast
  have e: "exec [Create 0, Create 1] (initial (flagOn [0, 1]) [5]) =
    Inr \<lparr>Instances = [0, 1],
         objs = [\<lparr>editor = 0, didChangeConfigurationHandler = 0, editorMouseMoveHandler = Some 3,
                  terminalHooks = Some \<lparr>entries = [], props = [(5, 4)]\<rparr>,
                  terminalInstanceCreatedHandler = Some 1, terminalInstanceDisposedHandler = Some 2\<rparr>,
                 \<lparr>editor = 1, didChangeConfigurationHandler = 5, editorMouseMoveHandler = Some 6,
                  terminalHooks = None,
                  terminalInstanceCreatedHandler = None, terminalInstanceDisposedHandler = None\<rparr>],
         subs = [(ConfigurationListener 0 0, True), (InstanceCreatedListener 0, True),
                 (InstanceDisposedListener 0, True), (EditorMouseMoveListener 0 0, True),
                 (TerminalMouseMoveListener 5, True), (ConfigurationListener 1 1, True),
                 (EditorMouseMoveListener 1 1, True)],
         focusOnHover = flagOn [0, 1], terminalInstances = [5]\<rparr>"
    by (simp add: run_defs flagOn_def)
  with s have v: "s = \<lparr>Instances = [0, 1],
         objs = [\<lparr>editor = 0, didChangeConfigurationHandler = 0, editorMouseMoveHandler = Some 3,
                  terminalHooks = Some \<lparr>entries = [], props = [(5, 4)]\<rparr>,
                  terminalInstanceCreatedHandler = Some 1, terminalInstanceDisposedHandler = Some 2\<rparr>,
                 \<lparr>editor = 1, didChangeConfigurationHandler = 5, editorMouseMoveHandler = Some 6,
                  terminalHooks = None,
                  terminalInstanceCreatedHandler = None, terminalInstanceDisposedHandler = None\<rparr>],
         subs = [(ConfigurationListener 0 0, True), (InstanceCreatedListener 0, True),
                 (InstanceDisposedListener 0, True), (EditorMouseMoveListener 0 0, True),
                 (TerminalMouseMoveListener 5, True), (ConfigurationListener 1 1, True),
                 (EditorMouseMoveListener 1 1, True)],
         focusOnHover = flagOn [0, 1], terminalInstances = [5]\<rparr>" by simp
  have c: "consistent s" using s(2) by (rule invariantD)
  have m: "1 \<in> set (Instances s)" "\<not> manageTerminals s 1"
    by (simp_all add: v manageTerminals_def)
  from dispose_non_manager_frame [OF c m] obtain s' where
    "dispose 1 s = Inr s'" "Instances s' = filter (\<lambda>d. d \<noteq> 1) (Instances s)"
    "\<forall>d. d \<noteq> 1 \<longrightarrow> objs s' ! d = objs s ! d"
    "\<forall>i < length (subs s). owner (fst (subs s ! i)) \<noteq> Some 1 \<longrightarrow> subs s' ! i = subs s ! i"
    "\<not> snd (subs s' ! didChangeConfigurationHandler (objs s ! 1))"
    "\<forall>h. editorMouseMoveHandler (objs s ! 1) = Some h \<longrightarrow>
        subscribed (subs s) h (EditorMouseMoveListener (editor (objs s ! 1)) 1) \<and>
        \<not> snd (subs s' ! h)"
    by blast
  with s(1) m show ?thesis
    by (intro exI [of _ s] exI [of _ s']) (simp add: v)
qed

lemma isHook_owner: "isHook l \<longleftrightarrow> owner l = None"
  by (cases l) simp_all

lemma releaseTerminals_handoff:
  assumes s: "consistent s" and c: "c \<in> set (Instances s)" and m: "manageTerminals s c"
    and o: "filter (\<lambda>d. d \<noteq> c) (Instances s) = other # rest"
  shows "\<exists>hc hd'. terminalInstanceCreatedHandler (objs s ! c) = Some hc \<and>
     terminalInstanceDisposedHandler (objs s ! c) = Some hd' \<and>
     releaseTerminals c s =
       Inr (s\<lparr>subs := offs [didChangeConfigurationHandler (objs s ! c), hc, hd'] (subs s) @
                       [(InstanceCreatedListener other, True), (InstanceDisposedListener other, True)],
              Instances := other # rest,
              objs := (objs s)
                [other := (objs s ! other)
                   \<lparr>terminalHooks := terminalHooks (objs s ! c),
                     terminalInstanceCreatedHandler := Some (length (subs s)),
                     terminalInstanceDisposedHandler := Some (Suc (length (subs s)))\<rparr>,
                 c := (objs s ! c)\<lparr>terminalHooks := Some new_Map\<rparr>]\<rparr>)"
proof -
  define obj where "obj = objs s ! c"
  define cfg where "cfg = didChangeConfigurationHandler obj"
  note f = consistent_fields [OF s c, folded obj_def]
  note b = consistent_bound [OF s c]
  have sp: "splice (indexOf (Instances s) c) 1 (Instances s) = other # rest"
    unfolding o [symmetric] using consistent_distinct [OF s] c by (rule splice_indexOf_distinct)
  from m f obtain hc hd' mp where h: "terminalInstanceCreatedHandler obj = Some hc"
    "terminalInstanceDisposedHandler obj = Some hd'" "terminalHooks obj = Some mp"
    by (auto simp: fields_ok_def manageTerminals_def obj_def split: option.splits)
  have "other \<in> set (filter (\<lambda>d. d \<noteq> c) (Instances s))" by (simp add: o)
  then have oc: "other \<noteq> c" and ol: "other \<in> set (Instances s)" by simp_all
  note bo = consistent_bound [OF s ol]
  have "releaseTerminals c s =
       Inr (s\<lparr>subs := offs [cfg, hc, hd'] (subs s) @
                       [(InstanceCreatedListener other, True), (InstanceDisposedListener other, True)],
              Instances := other # rest,
              objs := (objs s)
                [other := (objs s ! other)
                   \<lparr>terminalHooks := terminalHooks obj,
                     terminalInstanceCreatedHandler := Some (length (subs s)),
                     terminalInstanceDisposedHandler := Some (Suc (length (subs s)))\<rparr>,
                 c := obj\<lparr>terminalHooks := Some new_Map\<rparr>]\<rparr>)"
    using h sp oc b bo
    by (simp add: releaseTerminals_def Let_def dispose_sub_eq obj_def [symmetric] cfg_def
        upd_def handleTerminals_def subscribe_def)
  with h show ?thesis by (simp add: obj_def cfg_def)
qed

lemma afterDispose_handoff:
  assumes "terminalInstanceCreatedHandler (objs s ! c) = Some hc"
    and "filter (\<lambda>d. d \<noteq> c) (Instances s) = other # rest"
  shows "afterDispose c s =
     s\<lparr>Instances := other # rest,
       subs := offs (handlersOf (objs s ! c)) (subs s) @
               [(InstanceCreatedListener other, True), (InstanceDisposedListener other, True)],
       objs := (objs s)
         [other := (objs s ! other)
            \<lparr>terminalHooks := terminalHooks (objs s ! c),
              terminalInstanceCreatedHandler := Some (length (subs s)),
              terminalInstanceDisposedHandler := Some (Suc (length (subs s)))\<rparr>,
          c := (objs s ! c)\<lparr>editorMouseMoveHandler := None, terminalHooks := Some new_Map\<rparr>]\<rparr>"
  using assms by (simp add: afterDispose_def)

text \<open>
  The handoff of lines 120-133. \<open>dispose\<close> is called on the terminal manager \<open>c\<close> while another controller is
  live; \<open>other\<close> is the first of them in registry order. Lines 115-141 (\<open>releaseTerminals\<close>)
  hand the map over, and only then line 145 (\<open>unhookEvents\<close>) runs:
  \<^item> after the handoff \<open>other\<close> holds the map \<open>c\<close> held, with the same terminal identifiers
    and the same hooks, while the editor mouse-move subscription of \<open>c\<close> is still in
    its field and still active;
  \<^item> when \<open>dispose\<close> returns \<open>other\<close> still holds that map, is first in the registry, is
    the terminal manager and the only subscriber to the terminal service's two events;
    every per-terminal hook subscribed before is as it was, active or disposed, so none
    was disposed by the transfer or by the unhooking that followed it, and no
    subscription made meanwhile is a per-terminal hook, so none was duplicated; the editor
    mouse-move subscription of \<open>c\<close> is disposed.
\<close>

lemma handoff_transfers_hooks:
  assumes s: "consistent s" and c: "c \<in> set (Instances s)" and m: "manageTerminals s c"
    and o: "filter (\<lambda>d. d \<noteq> c) (Instances s) = other # rest"
  shows "\<exists>s1 s'. releaseTerminals c s = Inr s1 \<and> unhookEvents c s1 = Inr s' \<and>
     dispose c s = Inr s' \<and>
     terminalHooks (objs s1 ! other) = terminalHooks (objs s ! c) \<and>
     editorMouseMoveHandler (objs s1 ! c) = editorMouseMoveHandler (objs s ! c) \<and>
     (\<forall>h. editorMouseMoveHandler (objs s ! c) = Some h \<longrightarrow>
        subscribed (subs s1) h (EditorMouseMoveListener (editor (objs s ! c)) c)) \<and>
     Instances s' = other # rest \<and>
     terminalHooks (objs s' ! other) = terminalHooks (objs s ! c) \<and>
     manageTerminals s' other \<and>
     instanceCreatedListeners s' = [other] \<and> instanceDisposedListeners s' = [other] \<and>
     (\<forall>i < length (subs s). isHook (fst (subs s ! i)) \<longrightarrow> subs s' ! i = subs s ! i) \<and>
     (\<forall>i. length (subs s) \<le> i \<longrightarrow> i < length (subs s') \<longrightarrow> \<not> isHook (fst (subs s' ! i))) \<and>
     editorMouseMoveHandler (objs s' ! c) = None \<and>
     (\<forall>h. editorMouseMoveHandler (objs s ! c) = Some h \<longrightarrow> \<not> snd (subs s' ! h))"
proof -
  define obj where "obj = objs s ! c"
  note f = consistent_fields [OF s c, folded obj_def]
  note b = consistent_bound [OF s c]
  have "other \<in> set (filter (\<lambda>d. d \<noteq> c) (Instances s))" by (simp add: o)
  then have oc: "other \<noteq> c" and ol: "other \<in> set (Instances s)" by simp_all
  note bo = consistent_bound [OF s ol]
  from releaseTerminals_handoff [OF s c m o] obtain hc hd' s1 where
    h: "terminalInstanceCreatedHandler (objs s ! c) = Some hc"
       "terminalInstanceDisposedHandler (objs s ! c) = Some hd'"
    and r: "releaseTerminals c s = Inr s1"
    and s1: "s1 = s\<lparr>subs := offs [didChangeConfigurationHandler (objs s ! c), hc, hd'] (subs s) @
                       [(InstanceCreatedListener other, True), (InstanceDisposedListener other, True)],
              Instances := other # rest,
              objs := (objs s)
                [other := (objs s ! other)
                   \<lparr>terminalHooks := terminalHooks (objs s ! c),
                     terminalInstanceCreatedHandler := Some (length (subs s)),
                     terminalInstanceDisposedHandler := Some (Suc (length (subs s)))\<rparr>,
                 c := (objs s ! c)\<lparr>terminalHooks := Some new_Map\<rparr>]\<rparr>"
    by blast
  let ?s' = "afterDispose c s"
  note a = afterDispose_handoff [OF h(1) o]
  have d: "dispose c s = Inr ?s'" using s c by (rule dispose_eq)
  with r have u: "unhookEvents c s1 = Inr ?s'" by (simp add: dispose_def thenE_def)
  have 1: "terminalHooks (objs s1 ! other) = terminalHooks (objs s ! c)"
    using oc bo by (simp add: s1)
  have 2: "editorMouseMoveHandler (objs s1 ! c) = editorMouseMoveHandler (objs s ! c)"
    using b by (simp add: s1)
  have 3: "subscribed (subs s1) h (EditorMouseMoveListener (editor (objs s ! c)) c)"
    if "editorMouseMoveHandler (objs s ! c) = Some h" for h
  proof -
    from f that have e: "subscribed (subs s) h (EditorMouseMoveListener (editor obj) c)"
      by (simp add: fields_ok_def obj_def)
    from f h have "subscribed (subs s) (didChangeConfigurationHandler obj) (ConfigurationListener (editor obj) c)"
      "subscribed (subs s) hc (InstanceCreatedListener c)"
      "subscribed (subs s) hd' (InstanceDisposedListener c)"
      by (simp_all add: fields_ok_def obj_def)
    with e have "h \<noteq> didChangeConfigurationHandler obj" "h \<noteq> hc" "h \<noteq> hd'"
      using subscribed_inj by fastforce+
    with e show ?thesis by (simp add: s1 obj_def)
  qed
  have s': "consistent ?s'" using s c by (rule afterDispose_consistent)
  have 4: "Instances ?s' = other # rest" by (simp add: o)
  have 5: "terminalHooks (objs ?s' ! other) = terminalHooks (objs s ! c)"
    using oc bo by (simp add: a)
  have 6: "manageTerminals ?s' other" using oc bo by (simp add: a manageTerminals_def)
  have 7: "instanceCreatedListeners ?s' = [other]" "instanceDisposedListeners ?s' = [other]"
    using instanceCreatedListeners_consistent [OF s'] instanceDisposedListeners_consistent [OF s']
    by (simp_all add: o)
  have 8: "subs ?s' ! i = subs s ! i" if "i < length (subs s)" "isHook (fst (subs s ! i))" for i
  proof -
    have "i \<notin> held obj"
    proof
      assume "i \<in> held obj"
      with f obtain l where "subscribed (subs s) i l" "owner l = Some c"
        using held_owner by blast
      with that(2) show False by (simp add: subscribed_def isHook_owner)
    qed
    with that(1) show ?thesis by (simp add: a nth_append offs_nth set_handlersOf obj_def)
  qed
  have 9: "\<not> isHook (fst (subs ?s' ! i))" if "length (subs s) \<le> i" "i < length (subs ?s')" for i
  proof -
    from that have "i = length (subs s) \<or> i = Suc (length (subs s))" by (auto simp: a)
    then show ?thesis by (auto simp: a nth_append)
  qed
  have 10: "editorMouseMoveHandler (objs ?s' ! c) = None" using b by (simp add: a)
  have 11: "\<not> snd (subs ?s' ! h)" if "editorMouseMoveHandler (objs s ! c) = Some h" for h
  proof -
    from f that have e: "subscribed (subs s) h (EditorMouseMoveListener (editor obj) c)"
      by (simp add: fields_ok_def obj_def)
    then have "h < length (subs s)" by (simp add: subscribed_def)
    moreover from that have "h \<in> held obj" by (simp add: held_def obj_def)
    ultimately show ?thesis by (simp add: a nth_append offs_nth set_handlersOf obj_def)
  qed
  from r u d 1 2 3 4 5 6 7 8 9 10 11 show ?thesis
    by (intro exI [of _ s1] exI [of _ ?s']) simp
qed

lemma exec_twoControllers:
  "exec [Create 0, Create 1] (initial (flagOn [0, 1]) [5]) = Inr twoControllers"
  by (simp add: run_defs flagOn_def twoControllers_def)

lemma invariant_twoControllers: "invariant twoControllers"
proof -
  have "legal 0 [] [Create 0, Create 1]" by simp
  from exec_initial [OF this, of "flagOn [0, 1]" "[5]", unfolded exec_twoControllers]
  show ?thesis by auto
qed

text \<open>
  In the example state the manager, controller 0, is disposed: controller 1 receives the
  map with the hook of terminal 5, which stays active; the editor mouse-move subscription
  of controller 0, subscription 3, is active after the handoff and disposed at the end.
\<close>

lemma handoff_transfers_hooks_example:
  "\<exists>s1 s'. manageTerminals twoControllers 0 \<and>
     filter (\<lambda>d. d \<noteq> 0) (Instances twoControllers) = [1] \<and>
     releaseTerminals 0 twoControllers = Inr s1 \<and> dispose 0 twoControllers = Inr s' \<and>
     subs s1 ! 3 = (EditorMouseMoveListener 0 0, True) \<and>
     Instances s' = [1] \<and>
     terminalHooks (objs s' ! 1) = Some \<lparr>entries = [], props = [(5, 4)]\<rparr> \<and>
     subs s' ! 4 = (TerminalMouseMoveListener 5, True) \<and>
     instanceCreatedListeners s' = [1] \<and>
     \<not> snd (subs s' ! 3)"
proof -
  have c: "consistent twoControllers" using invariant_twoControllers by (rule invariantD)
  have m: "0 \<in> set (Instances twoControllers)" "manageTerminals twoControllers 0"
    "filter (\<lambda>d. d \<noteq> 0) (Instances twoControllers) = [1]"
    by (simp_all add: twoControllers_def manageTerminals_def)
  from handoff_transfers_hooks [OF c m] obtain s1 s' where
    "releaseTerminals 0 twoControllers = Inr s1" "dispose 0 twoControllers = Inr s'"
    "\<forall>h. editorMouseMoveHandler (objs twoControllers ! 0) = Some h \<longrightarrow>
        subscribed (subs s1) h (EditorMouseMoveListener (editor (objs twoControllers ! 0)) 0)"
    "Instances s' = [1]"
    "terminalHooks (objs s' ! 1) = terminalHooks (objs twoControllers ! 0)"
    "instanceCreatedListeners s' = [1]"
    "\<forall>i < length (subs twoControllers). isHook (fst (subs twoControllers ! i)) \<longrightarrow>
        subs s' ! i = subs twoControllers ! i"
    "\<forall>h. editorMouseMoveHandler (objs twoControllers ! 0) = Some h \<longrightarrow> \<not> snd (subs s' ! h)"
    by blast
  with m show ?thesis
    by (intro exI [of _ s1] exI [of _ s']) (simp add: twoControllers_def subscribed_def)
qed

text \<open>
  Claim C2 at a concrete input. Two controllers are created with the flag on while
  terminal 5 is open; the flag of editor 0 is turned off, and controller 0, the terminal
  manager, is disposed while controller 1 is live. Turning the flag off ran
  \<open>unhookEvents\<close> on controller 0: lines 95-97 disposed the hook of terminal 5
  (subscription 4) and \<^verbatim>\<open>clear\<close> in line 99 emptied the entries of the Map, but the
  hook was stored as a property by line 83 and is a property still. Line 129 hands that
  map to controller 1: the mapping transferred holds terminal 5 with a subscription that
  is disposed, not active. The first conjunct is the state before the disposal, the others
  the state after it.
\<close>

theorem handoff_transfers_disposed_hook:
  "map_sum id objs
     (exec [Create 0, Create 1, SetFocusOnHover 0 False] (initial (flagOn [0, 1]) [5])) =
   Inr [\<lparr>editor = 0, didChangeConfigurationHandler = 0, editorMouseMoveHandler = None,
         terminalHooks = Some \<lparr>entries = [], props = [(5, 4)]\<rparr>,
         terminalInstanceCreatedHandler = Some 1, terminalInstanceDisposedHandler = Some 2\<rparr>,
        \<lparr>editor = 1, didChangeConfigurationHandler = 5, editorMouseMoveHandler = Some 6,
         terminalHooks = None,
         terminalInstanceCreatedHandler = None, terminalInstanceDisposedHandler = None\<rparr>] \<and>
   map_sum id Instances
     (exec [Create 0, Create 1, SetFocusOnHover 0 False, Dispose 0]
        (initial (flagOn [0, 1]) [5])) = Inr [1] \<and>
   map_sum id objs
     (exec [Create 0, Create 1, SetFocusOnHover 0 False, Dispose 0]
        (initial (flagOn [0, 1]) [5])) =
   Inr [\<lparr>editor = 0, didChangeConfigurationHandler = 0, editorMouseMoveHandler = None,
         terminalHooks = Some \<lparr>entries = [], props = []\<rparr>,
         terminalInstanceCreatedHandler = Some 1, terminalInstanceDisposedHandler = Some 2\<rparr>,
        \<lparr>editor = 1, didChangeConfigurationHandler = 5, editorMouseMoveHandler = Some 6,
         terminalHooks = Some \<lparr>entries = [], props = [(5, 4)]\<rparr>,
         terminalInstanceCreatedHandler = Some 7, terminalInstanceDisposedHandler = Some 8\<rparr>] \<and>
   map_sum id subs
     (exec [Create 0, Create 1, SetFocusOnHover 0 False, Dispose 0]
        (initial (flagOn [0, 1]) [5])) =
   Inr [(ConfigurationListener 0 0, False), (InstanceCreatedListener 0, False),
        (InstanceDisposedListener 0, False), (EditorMouseMoveListener 0 0, False),
        (TerminalMouseMoveListener 5, False), (ConfigurationListener 1 1, True),
        (EditorMouseMoveListener 1 1, True), (InstanceCreatedListener 1, True),
        (InstanceDisposedListener 1, True)]"
  by (simp add: run_defs flagOn_def)

lemma map_of_putAll_mem:
  "t \<in> set ts \<Longrightarrow> \<exists>i < length ts. ts ! i = t \<and> map_of (putAll ts n kvs) t = Some (n + i)"
proof (induction ts arbitrary: n kvs)
  case Nil
  then show ?case by simp
next
  case (Cons a ts)
  show ?case
  proof (cases "t \<in> set ts")
    case True
    from Cons.IH [OF True, of "Suc n" "put a n kvs"] obtain i where
      "i < length ts" "ts ! i = t" "map_of (putAll ts (Suc n) (put a n kvs)) t = Some (Suc n + i)"
      by blast
    then have "Suc i < length (a # ts) \<and> (a # ts) ! Suc i = t \<and>
               map_of (putAll (a # ts) n kvs) t = Some (n + Suc i)" by simp
    then show ?thesis by blast
  next
    case False
    with Cons.prems have "t = a" by simp
    with False have "map_of (putAll (a # ts) n kvs) t = Some (n + 0)"
      by (simp add: map_of_putAll_other put_lookup)
    with \<open>t = a\<close> show ?thesis by (intro exI [of _ 0]) simp
  qed
qed

lemma hooked_manager:
  assumes "c < length (objs s)" and "manageTerminals s c" and "focusOnHover s (editor (objs s ! c))"
    and "terminalHooks (objs s ! c) = Some m"
  shows "subs (hooked c s) = subs s @ (EditorMouseMoveListener (editor (objs s ! c)) c, True) #
                                map (\<lambda>t. (TerminalMouseMoveListener t, True)) (terminalInstances s)"
    and "editorMouseMoveHandler (objs (hooked c s) ! c) = Some (length (subs s))"
    and "terminalHooks (objs (hooked c s) ! c) =
           Some (m\<lparr>props := putAll (terminalInstances s) (Suc (length (subs s))) (props m)\<rparr>)"
  using assms by (simp_all add: hooked_def Let_def)

text \<open>
  Claim C7. The terminal-created event is delivered to the callback of the terminal
  manager \<open>c\<close> and to no other. If the flag is off in the configuration of the manager's
  editor at that moment, the callback leaves the state as it is: no hook is added. If the
  flag is on, it subscribes one new hook to the mouse of the terminal and stores it under
  the terminal's identifier, leaving the other keys of the map alone. A terminal \<open>t'\<close>
  that is open when the configuration-change listener of the manager runs with the flag on
  gets its hook from that listener, which is \<open>unhookEvents\<close> followed by \<open>hookEvents\<close>
  and does not go through the created callback: the hook is a subscription made by
  \<open>hookEvents\<close>.
\<close>

theorem terminal_created_hooks_by_flag:
  assumes s: "consistent s" and c: "c \<in> set (Instances s)" and m: "manageTerminals s c"
  shows "fireInstanceCreated t s = onTerminalCreated c t s \<and>
     (\<not> focusOnHover s (editor (objs s ! c)) \<longrightarrow> onTerminalCreated c t s = Inr s) \<and>
     (focusOnHover s (editor (objs s ! c)) \<longrightarrow>
        (\<exists>s' m0 m'. onTerminalCreated c t s = Inr s' \<and>
           subs s' = subs s @ [(TerminalMouseMoveListener t, True)] \<and>
           terminalHooks (objs s ! c) = Some m0 \<and> terminalHooks (objs s' ! c) = Some m' \<and>
           map_of (props m') = (map_of (props m0))(t \<mapsto> length (subs s)))) \<and>
     (focusOnHover s (editor (objs s ! c)) \<longrightarrow>
        (\<exists>s1 s' m'. unhookEvents c s = Inr s1 \<and> hookEvents c s1 = Inr s' \<and>
           onDidChangeConfiguration \<lparr>contribInfo = True\<rparr> c s = Inr s' \<and>
           terminalHooks (objs s' ! c) = Some m' \<and>
           (\<forall>t' \<in> set (terminalInstances s).
              \<exists>h. map_of (props m') t' = Some h \<and> length (subs s1) < h \<and>
                  subscribed (subs s') h (TerminalMouseMoveListener t'))))"
proof -
  note f = consistent_fields [OF s c]
  note b = consistent_bound [OF s c]
  from f m obtain m0 where m0: "terminalHooks (objs s ! c) = Some m0"
    by (auto simp: fields_ok_def manageTerminals_def split: option.splits)
  from consistent_manager [OF s c] m c have "Instances s = c # tl (Instances s)"
    by (cases "Instances s") auto
  then have "instanceCreatedListeners s = [c]"
    using instanceCreatedListeners_consistent [OF s] by (metis list.simps(5))
  then have 1: "fireInstanceCreated t s = onTerminalCreated c t s"
    by (simp add: fireInstanceCreated_def thenE_def split: sum.splits)
  have 2: "onTerminalCreated c t s = Inr s" if "\<not> focusOnHover s (editor (objs s ! c))"
    using that by (simp add: onTerminalCreated_def)
  have 3: "\<exists>s' m0 m'. onTerminalCreated c t s = Inr s' \<and>
           subs s' = subs s @ [(TerminalMouseMoveListener t, True)] \<and>
           terminalHooks (objs s ! c) = Some m0 \<and> terminalHooks (objs s' ! c) = Some m' \<and>
           map_of (props m') = (map_of (props m0))(t \<mapsto> length (subs s))"
    if "focusOnHover s (editor (objs s ! c))"
  proof -
    have "onTerminalCreated c t s = Inr (withHook c t s)"
      using m0 by (simp add: onTerminalCreated_eq)
    moreover have "subs (withHook c t s) = subs s @ [(TerminalMouseMoveListener t, True)]"
      using that by (simp add: withHook_def)
    moreover have "terminalHooks (objs (withHook c t s) ! c) =
        Some (m0\<lparr>props := put t (length (subs s)) (props m0)\<rparr>)"
      using that b m0 by (simp add: withHook_def)
    ultimately show ?thesis using m0 by (simp add: put_lookup)
  qed
  have 4: "\<exists>s1 s' m'. unhookEvents c s = Inr s1 \<and> hookEvents c s1 = Inr s' \<and>
           onDidChangeConfiguration \<lparr>contribInfo = True\<rparr> c s = Inr s' \<and>
           terminalHooks (objs s' ! c) = Some m' \<and>
           (\<forall>t' \<in> set (terminalInstances s).
              \<exists>h. map_of (props m') t' = Some h \<and> length (subs s1) < h \<and>
                  subscribed (subs s') h (TerminalMouseMoveListener t'))"
    if on: "focusOnHover s (editor (objs s ! c))"
  proof -
    let ?s1 = "unhooked c s"
    let ?s' = "hooked c ?s1"
    let ?n = "length (subs ?s1)"
    let ?p = "putAll (terminalInstances s) (Suc ?n) (props m0)"
    note r = rehook [OF s c]
    have b1: "c < length (objs ?s1)" using b by simp
    have m1: "manageTerminals ?s1 c" using m b by (simp add: manageTerminals_def unhooked_nth)
    have f1: "focusOnHover ?s1 (editor (objs ?s1 ! c))" using on b by (simp add: unhooked_nth)
    have h1: "terminalHooks (objs ?s1 ! c) = Some m0" using m0 b by (simp add: unhooked_nth)
    note hm = hooked_manager [OF b1 m1 f1 h1]
    have "\<exists>h. map_of ?p t' = Some h \<and> ?n < h \<and> subscribed (subs ?s') h (TerminalMouseMoveListener t')"
      if "t' \<in> set (terminalInstances s)" for t'
    proof -
      from map_of_putAll_mem [OF that, of "Suc ?n" "props m0"] obtain i where
        i: "i < length (terminalInstances s)" "terminalInstances s ! i = t'"
           "map_of ?p t' = Some (Suc ?n + i)" by blast
      have "subscribed (subs ?s') (Suc ?n + i) (TerminalMouseMoveListener t')"
        using i(1,2) unfolding hm(1) by (simp add: subscribed_def nth_append)
      with i(3) show ?thesis by simp
    qed
    with r(1,2) hm(3) onDidChangeConfiguration_eq [OF s c, of "\<lparr>contribInfo = True\<rparr>"]
    have "unhookEvents c s = Inr ?s1 \<and> hookEvents c ?s1 = Inr ?s' \<and>
           onDidChangeConfiguration \<lparr>contribInfo = True\<rparr> c s = Inr ?s' \<and>
           terminalHooks (objs ?s' ! c) = Some (m0\<lparr>props := ?p\<rparr>) \<and>
           (\<forall>t' \<in> set (terminalInstances s).
              \<exists>h. map_of (props (m0\<lparr>props := ?p\<rparr>)) t' = Some h \<and> length (subs ?s1) < h \<and>
                  subscribed (subs ?s') h (TerminalMouseMoveListener t'))"
      by simp
    then show ?thesis by blast
  qed
  from 1 2 3 4 show ?thesis by blast
qed

lemma exec_quietManager: "exec [Create 0] (initial (flagOn []) [5]) = Inr quietManager"
  by (simp add: run_defs flagOn_def quietManager_def)

lemma invariant_quietManager: "invariant quietManager"
proof -
  have "legal 0 [] [Create 0]" by simp
  from exec_initial [OF this, of "flagOn []" "[5]", unfolded exec_quietManager]
  show ?thesis by auto
qed

text \<open>
  With the flag off the created event of terminal 7 changes nothing. With the flag on (the
  state with two controllers) it subscribes hook 7 for terminal 7, and the
  configuration-change listener gives terminal 5, which is open, a new hook.
\<close>

theorem terminal_created_hooks_by_flag_witness:
  "fireInstanceCreated 7 quietManager = Inr quietManager \<and>
   (\<exists>s' m'. fireInstanceCreated 7 twoControllers = Inr s' \<and>
      subs s' = subs twoControllers @ [(TerminalMouseMoveListener 7, True)] \<and>
      terminalHooks (objs s' ! 0) = Some m' \<and>
      map_of (props m') 7 = Some 7 \<and> map_of (props m') 5 = Some 4) \<and>
   (\<exists>s' m' h. onDidChangeConfiguration \<lparr>contribInfo = True\<rparr> 0 twoControllers = Inr s' \<and>
      terminalHooks (objs s' ! 0) = Some m' \<and> map_of (props m') 5 = Some h \<and> 7 < h \<and>
      subscribed (subs s') h (TerminalMouseMoveListener 5))"
proof -
  have q: "consistent quietManager" using invariant_quietManager by (rule invariantD)
  have qm: "0 \<in> set (Instances quietManager)" "manageTerminals quietManager 0"
    "\<not> focusOnHover quietManager (editor (objs quietManager ! 0))"
    by (simp_all add: quietManager_def manageTerminals_def flagOn_def)
  from terminal_created_hooks_by_flag [OF q qm(1,2), of 7] qm(3)
  have 1: "fireInstanceCreated 7 quietManager = Inr quietManager" by simp
  have c: "consistent twoControllers" using invariant_twoControllers by (rule invariantD)
  have m: "0 \<in> set (Instances twoControllers)" "manageTerminals twoControllers 0"
    "focusOnHover twoControllers (editor (objs twoControllers ! 0))"
    by (simp_all add: twoControllers_def manageTerminals_def flagOn_def)
  note t = terminal_created_hooks_by_flag [OF c m(1,2), of 7]
  from t m(3) obtain s' m0 m' where
    "fireInstanceCreated 7 twoControllers = Inr s'"
    "subs s' = subs twoControllers @ [(TerminalMouseMoveListener 7, True)]"
    "terminalHooks (objs twoControllers ! 0) = Some m0" "terminalHooks (objs s' ! 0) = Some m'"
    "map_of (props m') = (map_of (props m0))(7 \<mapsto> length (subs twoControllers))"
    by auto
  then have 2: "\<exists>s' m'. fireInstanceCreated 7 twoControllers = Inr s' \<and>
      subs s' = subs twoControllers @ [(TerminalMouseMoveListener 7, True)] \<and>
      terminalHooks (objs s' ! 0) = Some m' \<and>
      map_of (props m') 7 = Some 7 \<and> map_of (props m') 5 = Some 4"
    by (auto simp: twoControllers_def)
  from t m(3) obtain s1 s'' m'' where r:
    "unhookEvents 0 twoControllers = Inr s1"
    "onDidChangeConfiguration \<lparr>contribInfo = True\<rparr> 0 twoControllers = Inr s''"
    "terminalHooks (objs s'' ! 0) = Some m''"
    "\<forall>t' \<in> set (terminalInstances twoControllers).
        \<exists>h. map_of (props m'') t' = Some h \<and> length (subs s1) < h \<and>
            subscribed (subs s'') h (TerminalMouseMoveListener t')"
    by auto
  have "unhookEvents 0 twoControllers = Inr (unhooked 0 twoControllers)"
    using rehook(1) [OF c m(1)] .
  with r(1) have "length (subs s1) = 7" by (auto simp: twoControllers_def)
  with r(4) obtain h where "map_of (props m'') 5 = Some h" "7 < h"
    "subscribed (subs s'') h (TerminalMouseMoveListener 5)"
    by (auto simp: twoControllers_def)
  with r(2,3) have 3: "\<exists>s' m' h. onDidChangeConfiguration \<lparr>contribInfo = True\<rparr> 0 twoControllers = Inr s' \<and>
      terminalHooks (objs s' ! 0) = Some m' \<and> map_of (props m') 5 = Some h \<and> 7 < h \<and>
      subscribed (subs s') h (TerminalMouseMoveListener 5)" by blast
  from 1 2 3 show ?thesis by blast
qed

text \<open>
  Claim C6, as amended. When \<open>unhookEvents\<close> runs on the terminal manager \<open>c\<close>:
  \<^item> if \<open>c\<close> holds no editor mouse-move subscription, nothing changes (the guard of line 90
    encloses lines 94-100), and no per-terminal hook is disposed;
  \<^item> if it holds one, that subscription and every per-terminal hook stored in the map are
    disposed;
  \<^item> in both cases \<open>c\<close> keeps the terminal-manager role: its two terminal-service handlers
    are the same disposables as before and are still subscribed, and \<open>c\<close> is still the
    only subscriber to the two events.
\<close>

theorem unhookEvents_keeps_role:
  assumes s: "consistent s" and c: "c \<in> set (Instances s)" and m: "manageTerminals s c"
  shows "\<exists>s' hc hd' mp. unhookEvents c s = Inr s' \<and>
     (editorMouseMoveHandler (objs s ! c) = None \<longrightarrow> s' = s) \<and>
     terminalHooks (objs s ! c) = Some mp \<and>
     (\<forall>h. editorMouseMoveHandler (objs s ! c) = Some h \<longrightarrow>
        \<not> snd (subs s' ! h) \<and> (\<forall>kv \<in> set (props mp). \<not> snd (subs s' ! snd kv))) \<and>
     editorMouseMoveHandler (objs s' ! c) = None \<and>
     manageTerminals s' c \<and> Instances s' = Instances s \<and>
     terminalInstanceCreatedHandler (objs s ! c) = Some hc \<and>
     terminalInstanceDisposedHandler (objs s ! c) = Some hd' \<and>
     terminalInstanceCreatedHandler (objs s' ! c) = Some hc \<and>
     terminalInstanceDisposedHandler (objs s' ! c) = Some hd' \<and>
     subscribed (subs s') hc (InstanceCreatedListener c) \<and>
     subscribed (subs s') hd' (InstanceDisposedListener c) \<and>
     instanceCreatedListeners s' = [c] \<and> instanceDisposedListeners s' = [c]"
proof -
  note f = consistent_fields [OF s c]
  note b = consistent_bound [OF s c]
  let ?s' = "unhooked c s"
  have u: "unhookEvents c s = Inr ?s'" using rehook(1) [OF s c] .
  have s': "consistent ?s'" using s c by (rule unhooked_consistent)
  have c': "c \<in> set (Instances ?s')" using c by simp
  from f m obtain hc hd' mp where h: "terminalInstanceCreatedHandler (objs s ! c) = Some hc"
    "terminalInstanceDisposedHandler (objs s ! c) = Some hd'" "terminalHooks (objs s ! c) = Some mp"
    by (auto simp: fields_ok_def manageTerminals_def split: option.splits)
  have 1: "?s' = s" if "editorMouseMoveHandler (objs s ! c) = None"
  proof -
    from that have eq: "(objs s ! c)\<lparr>editorMouseMoveHandler := None\<rparr> = objs s ! c"
      by (cases "objs s ! c") simp
    show ?thesis by (simp add: unhooked_def unhooks_def that eq)
  qed
  have 2: "\<not> snd (subs ?s' ! h) \<and> (\<forall>kv \<in> set (props mp). \<not> snd (subs ?s' ! snd kv))"
    if e: "editorMouseMoveHandler (objs s ! c) = Some h" for h
  proof -
    from f e have "h < length (subs s)" by (simp add: fields_ok_def subscribed_def)
    moreover have "h \<in> set (unhooks s c)" using e by (simp add: unhooks_mem)
    ultimately have a: "\<not> snd (subs ?s' ! h)" by (simp add: offs_nth)
    have "\<not> snd (subs ?s' ! snd kv)" if kv: "kv \<in> set (props mp)" for kv
    proof -
      from f h kv have "hookFor (subs s) kv" by (simp add: fields_ok_def list_all_iff)
      then have "snd kv < length (subs s)" by (simp add: hookFor_def listens_def)
      moreover have "snd kv \<in> set (unhooks s c)" using e m h(3) kv by (auto simp: unhooks_mem)
      ultimately show ?thesis by (simp add: offs_nth)
    qed
    with a show ?thesis by blast
  qed
  have 3: "editorMouseMoveHandler (objs ?s' ! c) = None" using b by (simp add: unhooked_nth)
  have 4: "terminalInstanceCreatedHandler (objs ?s' ! c) = Some hc"
    "terminalInstanceDisposedHandler (objs ?s' ! c) = Some hd'"
    using b h by (simp_all add: unhooked_nth)
  then have 5: "manageTerminals ?s' c" by (simp add: manageTerminals_def)
  from consistent_fields [OF s' c'] 4 have 6: "subscribed (subs ?s') hc (InstanceCreatedListener c)"
    "subscribed (subs ?s') hd' (InstanceDisposedListener c)"
    by (simp_all add: fields_ok_def)
  from consistent_manager [OF s' c'] 5 c' have "Instances ?s' = c # tl (Instances ?s')"
    by (cases "Instances ?s'") auto
  then have 7: "instanceCreatedListeners ?s' = [c]" "instanceDisposedListeners ?s' = [c]"
    using instanceCreatedListeners_consistent [OF s'] instanceDisposedListeners_consistent [OF s']
    by (metis list.simps(5))+
  from u 1 2 3 4 5 6 7 h show ?thesis
    by (intro exI [of _ ?s'] exI [of _ hc] exI [of _ hd'] exI [of _ mp]) simp
qed

text \<open>
  In the state with two controllers \<open>unhookEvents\<close> runs on the manager, controller 0,
  which listens to its editor's mouse: subscription 3 and the hook of terminal 5,
  subscription 4, are disposed, and the manager's terminal-service subscriptions 1 and 2
  stay. In the state with the flag off it changes nothing.
\<close>

theorem unhookEvents_keeps_role_witness:
  "(\<exists>s'. unhookEvents 0 twoControllers = Inr s' \<and>
      \<not> snd (subs s' ! 3) \<and> \<not> snd (subs s' ! 4) \<and>
      subscribed (subs s') 1 (InstanceCreatedListener 0) \<and>
      subscribed (subs s') 2 (InstanceDisposedListener 0) \<and>
      manageTerminals s' 0 \<and> instanceCreatedListeners s' = [0]) \<and>
   unhookEvents 0 quietManager = Inr quietManager"
proof -
  have c: "consistent twoControllers" using invariant_twoControllers by (rule invariantD)
  have m: "0 \<in> set (Instances twoControllers)" "manageTerminals twoControllers 0"
    by (simp_all add: twoControllers_def manageTerminals_def)
  from unhookEvents_keeps_role [OF c m]
  have 1: "\<exists>s'. unhookEvents 0 twoControllers = Inr s' \<and>
      \<not> snd (subs s' ! 3) \<and> \<not> snd (subs s' ! 4) \<and>
      subscribed (subs s') 1 (InstanceCreatedListener 0) \<and>
      subscribed (subs s') 2 (InstanceDisposedListener 0) \<and>
      manageTerminals s' 0 \<and> instanceCreatedListeners s' = [0]"
    by (auto simp: twoControllers_def)
  have q: "consistent quietManager" using invariant_quietManager by (rule invariantD)
  have qm: "0 \<in> set (Instances quietManager)" "manageTerminals quietManager 0"
    by (simp_all add: quietManager_def manageTerminals_def)
  from unhookEvents_keeps_role [OF q qm]
  have 2: "unhookEvents 0 quietManager = Inr quietManager"
    by (auto simp: quietManager_def)
  from 1 2 show ?thesis by blast
qed

text \<open>
  Claim C6 as stated fails at two inputs.
  \<^item> Controller 0 is created on an editor with the flag on while terminal 5 is open,
    controller 1 on an editor with the flag off, and controller 0 is disposed: controller
    1 is now the terminal manager, holds the hook of terminal 5 (subscription 4) and has
    no editor mouse-move subscription. \<open>unhookEvents\<close> on controller 1 disposes nothing:
    subscription 4 is still active.
  \<^item> Controller 0 alone, with the flag on and terminal 5 open: \<open>unhookEvents\<close> disposes the
    hook, subscription 4, and the hook is still a property of the map.
\<close>

theorem unhookEvents_counterexample:
  "map_sum id subs
     (thenE (exec [Create 0, Create 1, Dispose 0] (initial (flagOn [0]) [5])) (unhookEvents 1)) =
   Inr [(ConfigurationListener 0 0, False), (InstanceCreatedListener 0, False),
        (InstanceDisposedListener 0, False), (EditorMouseMoveListener 0 0, False),
        (TerminalMouseMoveListener 5, True), (ConfigurationListener 1 1, True),
        (InstanceCreatedListener 1, True), (InstanceDisposedListener 1, True)] \<and>
   map_sum id objs
     (thenE (exec [Create 0, Create 1, Dispose 0] (initial (flagOn [0]) [5])) (unhookEvents 1)) =
   Inr [\<lparr>editor = 0, didChangeConfigurationHandler = 0, editorMouseMoveHandler = None,
         terminalHooks = Some \<lparr>entries = [], props = []\<rparr>,
         terminalInstanceCreatedHandler = Some 1, terminalInstanceDisposedHandler = Some 2\<rparr>,
        \<lparr>editor = 1, didChangeConfigurationHandler = 5, editorMouseMoveHandler = None,
         terminalHooks = Some \<lparr>entries = [], props = [(5, 4)]\<rparr>,
         terminalInstanceCreatedHandler = Some 6, terminalInstanceDisposedHandler = Some 7\<rparr>] \<and>
   map_sum id subs (thenE (exec [Create 0] (initial (flagOn [0]) [5])) (unhookEvents 0)) =
   Inr [(ConfigurationListener 0 0, True), (InstanceCreatedListener 0, True),
        (InstanceDisposedListener 0, True), (EditorMouseMoveListener 0 0, False),
        (TerminalMouseMoveListener 5, False)] \<and>
   map_sum id objs (thenE (exec [Create 0] (initial (flagOn [0]) [5])) (unhookEvents 0)) =
   Inr [\<lparr>editor = 0, didChangeConfigurationHandler = 0, editorMouseMoveHandler = None,
         terminalHooks = Some \<lparr>entries = [], props = [(5, 4)]\<rparr>,
         terminalInstanceCreatedHandler = Some 1, terminalInstanceDisposedHandler = Some 2\<rparr>]"
  by (simp add: run_defs flagOn_def)

text \<open>
  Claim C3 at a concrete input. One controller is created with the flag on while terminal
  5 is open, and disposed: it is the terminal manager and the last live controller. All its
  subscriptions are disposed, the hook of terminal 5 (subscription 4) among them, and the
  entries of the map are empty; but the hook is still a property of the map, under
  key 5: \<^verbatim>\<open>clear\<close> in line 139 empties the entries of the Map, and line 83 stored the
  hook as a property.
\<close>

theorem dispose_last_manager_keeps_properties:
  "map_sum id Instances (exec [Create 0, Dispose 0] (initial (flagOn [0]) [5])) = Inr [] \<and>
   map_sum id subs (exec [Create 0, Dispose 0] (initial (flagOn [0]) [5])) =
   Inr [(ConfigurationListener 0 0, False), (InstanceCreatedListener 0, False),
        (InstanceDisposedListener 0, False), (EditorMouseMoveListener 0 0, False),
        (TerminalMouseMoveListener 5, False)] \<and>
   map_sum id objs (exec [Create 0, Dispose 0] (initial (flagOn [0]) [5])) =
   Inr [\<lparr>editor = 0, didChangeConfigurationHandler = 0, editorMouseMoveHandler = None,
         terminalHooks = Some \<lparr>entries = [], props = [(5, 4)]\<rparr>,
         terminalInstanceCreatedHandler = Some 1, terminalInstanceDisposedHandler = Some 2\<rparr>]"
  by (simp add: run_defs flagOn_def)

text \<open>
  Claim C4 at a concrete input. One controller is created with the flag on, terminal 7 is
  created (line 62 stores its hook, subscription 4, as a property of the map) and then
  disposed: \<^verbatim>\<open>has\<close> in line 67 consults the entries of the Map, which are empty, so the
  callback does nothing; the hook is still active and still stored under key 7.
\<close>

theorem terminal_disposed_keeps_hook:
  "map_sum id subs
     (exec [Create 0, TerminalCreated 7, TerminalDisposed 7] (initial (flagOn [0]) [])) =
   Inr [(ConfigurationListener 0 0, True), (InstanceCreatedListener 0, True),
        (InstanceDisposedListener 0, True), (EditorMouseMoveListener 0 0, True),
        (TerminalMouseMoveListener 7, True)] \<and>
   map_sum id objs
     (exec [Create 0, TerminalCreated 7, TerminalDisposed 7] (initial (flagOn [0]) [])) =
   Inr [\<lparr>editor = 0, didChangeConfigurationHandler = 0, editorMouseMoveHandler = Some 3,
         terminalHooks = Some \<lparr>entries = [], props = [(7, 4)]\<rparr>,
         terminalInstanceCreatedHandler = Some 1, terminalInstanceDisposedHandler = Some 2\<rparr>] \<and>
   map_sum id terminalInstances
     (exec [Create 0, TerminalCreated 7, TerminalDisposed 7] (initial (flagOn [0]) [])) = Inr []"
  by (simp add: run_defs flagOn_def)

section \<open>A configuration change seen from one controller\<close>










section \<open>Instances that once managed the terminals\<close>

lemma all_equipped_nth: "all_equipped s \<Longrightarrow> c < length (objs s) \<Longrightarrow> equipped (objs s ! c)"
  by (simp add: all_equipped_def list_all_length)

lemma all_equipped_upd:
  assumes "all_equipped s" and "c < length (objs s) \<Longrightarrow> equipped (f (objs s ! c))"
  shows "all_equipped (upd c f s)"
  unfolding all_equipped_def list_all_length
proof (intro allI impI)
  fix n assume n: "n < length (objs (upd c f s))"
  then have "equipped (objs s ! n)" using assms(1) by (simp add: all_equipped_nth)
  with n assms(2) show "equipped (objs (upd c f s) ! n)"
    by (cases "n = c") (simp_all add: upd_nth)
qed

lemma all_equipped_upd_each:
  assumes "all_equipped s" and "\<And>obj. equipped obj \<Longrightarrow> equipped (f obj)"
  shows "all_equipped (upd c f s)"
  using assms(1)
proof (rule all_equipped_upd)
  assume "c < length (objs s)"
  with assms show "equipped (f (objs s ! c))" by (simp add: all_equipped_nth)
qed

lemma all_equipped_objs: "objs s' = objs s \<Longrightarrow> all_equipped s' = all_equipped s"
  by (simp add: all_equipped_def)

lemma all_equipped_dispose_sub [simp]: "all_equipped (dispose_sub h s) = all_equipped s"
  by (simp add: all_equipped_def)

lemma all_equipped_disposeHooks [simp]: "all_equipped (disposeHooks kvs s) = all_equipped s"
  by (simp add: all_equipped_def)

lemma all_equipped_subs_update [simp]: "all_equipped (s\<lparr>subs := xs\<rparr>) = all_equipped s"
  by (simp add: all_equipped_def)

lemma all_equipped_Instances_update [simp]: "all_equipped (s\<lparr>Instances := xs\<rparr>) = all_equipped s"
  by (simp add: all_equipped_def)

lemma all_equipped_focusOnHover_update [simp]:
  "all_equipped (s\<lparr>focusOnHover := g\<rparr>) = all_equipped s"
  by (simp add: all_equipped_def)

lemma all_equipped_terminalInstances_update [simp]:
  "all_equipped (s\<lparr>terminalInstances := xs\<rparr>) = all_equipped s"
  by (simp add: all_equipped_def)

lemma all_equipped_handleTerminals:
  assumes "all_equipped s" and "c < length (objs s) \<Longrightarrow> terminalHooks (objs s ! c) \<noteq> None"
  shows "all_equipped (handleTerminals c s)"
proof (cases "c < length (objs s)")
  case True
  have "handleTerminals c s =
      upd c (\<lambda>obj. obj\<lparr>terminalInstanceCreatedHandler := Some (length (subs s)),
                       terminalInstanceDisposedHandler := Some (Suc (length (subs s)))\<rparr>)
        (s\<lparr>subs := subs s @ [(InstanceCreatedListener c, True), (InstanceDisposedListener c, True)]\<rparr>)"
    using True by (simp add: handleTerminals_eq upd_def)
  moreover have "all_equipped \<dots>"
  proof (rule all_equipped_upd)
    show "all_equipped (s\<lparr>subs := subs s @
        [(InstanceCreatedListener c, True), (InstanceDisposedListener c, True)]\<rparr>)"
      using assms(1) by simp
  qed (use assms(2) True in \<open>simp add: equipped_def\<close>)
  ultimately show ?thesis by simp
next
  case False
  then have "objs (handleTerminals c s) = objs s"
    by (simp add: handleTerminals_def subscribe_def upd_def list_update_beyond)
  with assms(1) show ?thesis by (simp add: all_equipped_def)
qed

lemma all_equipped_hookTerminals:
  "all_equipped s \<Longrightarrow> hookTerminals c ts s = Inr s' \<Longrightarrow> all_equipped s'"
proof (induction ts arbitrary: s)
  case Nil
  then show ?case by simp
next
  case (Cons t ts)
  from Cons.prems(2) obtain m where m: "terminalHooks (objs s ! c) = Some m"
    by (auto split: option.splits)
  let ?s1 = "upd c (\<lambda>obj. obj\<lparr>terminalHooks := Some (m\<lparr>props := put t (length (subs s)) (props m)\<rparr>)\<rparr>)
               (s\<lparr>subs := subs s @ [(TerminalMouseMoveListener t, True)]\<rparr>)"
  from Cons.prems(2) m have r: "hookTerminals c ts ?s1 = Inr s'"
    by (simp add: subscribe_def)
  have "all_equipped ?s1"
  proof (rule all_equipped_upd_each)
    show "all_equipped (s\<lparr>subs := subs s @ [(TerminalMouseMoveListener t, True)]\<rparr>)" using Cons.prems(1) by simp
  qed (simp add: equipped_def)
  from Cons.IH [OF this r] show ?case .
qed

lemma all_equipped_hookEvents:
  assumes "all_equipped s" and "hookEvents c s = Inr s'"
  shows "all_equipped s'"
proof (cases "focusOnHover s (editor (objs s ! c))")
  case False
  with assms show ?thesis by (simp add: hookEvents_def)
next
  case True
  let ?s1 = "s\<lparr>subs := subs s @ [(EditorMouseMoveListener (editor (objs s ! c)) c, True)]\<rparr>"
  let ?s2 = "upd c (\<lambda>obj. obj\<lparr>editorMouseMoveHandler := Some (length (subs s))\<rparr>) ?s1"
  have "all_equipped ?s2"
  proof (rule all_equipped_upd_each)
    show "all_equipped ?s1" using assms(1) by simp
  qed (simp add: equipped_def)
  moreover from assms(2) True have "s' = ?s2 \<or> hookTerminals c (terminalInstances ?s2) ?s2 = Inr s'"
    by (auto simp: hookEvents_def subscribe_def Let_def split: if_splits)
  ultimately show ?thesis using all_equipped_hookTerminals by blast
qed

lemma all_equipped_unhookEvents:
  assumes "all_equipped s" and "unhookEvents c s = Inr s'"
  shows "all_equipped s'"
proof (cases "editorMouseMoveHandler (objs s ! c)")
  case None
  with assms show ?thesis by (simp add: unhookEvents_def)
next
  case (Some h)
  let ?s2 = "upd c (\<lambda>obj. obj\<lparr>editorMouseMoveHandler := None\<rparr>) (dispose_sub h s)"
  have e2: "all_equipped ?s2"
  proof (rule all_equipped_upd_each)
    show "all_equipped (dispose_sub h s)" using assms(1) by simp
  qed (simp add: equipped_def)
  show ?thesis
  proof (cases "manageTerminals ?s2 c")
    case False
    with assms(2) Some e2 show ?thesis by (simp add: unhookEvents_def Let_def)
  next
    case True
    from assms(2) Some True have
      r: "(case terminalHooks (objs ?s2 ! c) of None \<Rightarrow> Inl TypeError
           | Some m \<Rightarrow> Inr (upd c (\<lambda>obj. obj\<lparr>terminalHooks := Some (clear m)\<rparr>)
                              (disposeHooks (props m) ?s2))) = Inr s'"
      by (simp add: unhookEvents_def Let_def)
    then obtain m where m: "terminalHooks (objs ?s2 ! c) = Some m"
      by (cases "terminalHooks (objs ?s2 ! c)") simp_all
    with r have s': "s' = upd c (\<lambda>obj. obj\<lparr>terminalHooks := Some (clear m)\<rparr>) (disposeHooks (props m) ?s2)"
      by simp
    show ?thesis unfolding s'
    proof (rule all_equipped_upd_each)
      show "all_equipped (disposeHooks (props m) ?s2)" using e2 by simp
    qed (simp add: equipped_def)
  qed
qed

lemma all_equipped_onDidChangeConfiguration:
  assumes "all_equipped s" and "onDidChangeConfiguration ev c s = Inr s'"
  shows "all_equipped s'"
proof (cases "contribInfo ev")
  case False
  with assms show ?thesis by (simp add: onDidChangeConfiguration_def)
next
  case True
  with assms(2) obtain s1 where s1: "unhookEvents c s = Inr s1" "hookEvents c s1 = Inr s'"
    by (auto simp: onDidChangeConfiguration_def thenE_def split: sum.splits)
  from all_equipped_unhookEvents [OF assms(1) s1(1)] have "all_equipped s1" .
  from all_equipped_hookEvents [OF this s1(2)] show ?thesis .
qed

lemma all_equipped_onTerminalCreated:
  assumes "all_equipped s" and "onTerminalCreated c t s = Inr s'"
  shows "all_equipped s'"
proof (cases "focusOnHover s (editor (objs s ! c))")
  case False
  with assms show ?thesis by (simp add: onTerminalCreated_def)
next
  case True
  with assms(2) obtain m where m: "terminalHooks (objs s ! c) = Some m"
    and s': "s' = upd c (\<lambda>obj. obj\<lparr>terminalHooks := Some (m\<lparr>props := put t (length (subs s)) (props m)\<rparr>)\<rparr>)
               (s\<lparr>subs := subs s @ [(TerminalMouseMoveListener t, True)]\<rparr>)"
    by (auto simp: onTerminalCreated_def subscribe_def split: option.splits)
  show ?thesis unfolding s'
  proof (rule all_equipped_upd_each)
    show "all_equipped (s\<lparr>subs := subs s @ [(TerminalMouseMoveListener t, True)]\<rparr>)" using assms(1) by simp
  qed (simp add: equipped_def)
qed

lemma all_equipped_onTerminalDisposed:
  assumes "all_equipped s" and "onTerminalDisposed c t s = Inr s'"
  shows "all_equipped s'"
proof (cases "\<exists>m. terminalHooks (objs s ! c) = Some m \<and> has m t")
  case False
  with assms show ?thesis by (auto simp: onTerminalDisposed_def split: option.splits if_splits)
next
  case True
  then obtain m where m: "terminalHooks (objs s ! c) = Some m" "has m t" by blast
  with assms(2) obtain h where
    s': "s' = upd c (\<lambda>obj. obj\<lparr>terminalHooks := Some (delete t m)\<rparr>) (dispose_sub h s)"
    by (auto simp: onTerminalDisposed_def split: option.splits)
  show ?thesis unfolding s'
  proof (rule all_equipped_upd_each)
    show "all_equipped (dispose_sub h s)" using assms(1) by simp
  qed (simp add: equipped_def)
qed

lemma each_keeps:
  assumes "\<And>x s s'. P s \<Longrightarrow> f x s = Inr s' \<Longrightarrow> P s'"
  shows "P s \<Longrightarrow> each f xs s = Inr s' \<Longrightarrow> P s'"
proof (induction xs arbitrary: s)
  case Nil
  then show ?case by simp
next
  case (Cons x xs)
  from Cons.prems(2) obtain s1 where s1: "f x s = Inr s1" "each f xs s1 = Inr s'"
    by (auto simp: thenE_def split: sum.splits)
  from assms [OF Cons.prems(1) s1(1)] have "P s1" .
  from Cons.IH [OF this s1(2)] show ?case .
qed

lemma all_equipped_releaseTerminals:
  assumes e: "all_equipped s" and c: "c < length (objs s)" and r: "releaseTerminals c s = Inr s'"
  shows "all_equipped s'"
proof (cases "terminalInstanceCreatedHandler (objs s ! c)")
  case None
  with r have "s' = (dispose_sub (didChangeConfigurationHandler (objs s ! c)) s)
      \<lparr>Instances := splice (indexOf (Instances s) c) 1 (Instances s)\<rparr>"
    by (simp add: releaseTerminals_def Let_def)
  with e show ?thesis by simp
next
  case (Some hc)
  with all_equipped_nth [OF e c] obtain hd' m where
    f: "terminalInstanceDisposedHandler (objs s ! c) = Some hd'" "terminalHooks (objs s ! c) = Some m"
    by (auto simp: equipped_def)
  define s4 where "s4 = dispose_sub hd' (dispose_sub hc
      ((dispose_sub (didChangeConfigurationHandler (objs s ! c)) s)
         \<lparr>Instances := splice (indexOf (Instances s) c) 1 (Instances s)\<rparr>))"
  have o4: "objs s4 = objs s" and e4: "all_equipped s4" using e by (simp_all add: s4_def)
  show ?thesis
  proof (cases "Instances s4")
    case Nil
    with r Some f have "s' = upd c (\<lambda>obj. obj\<lparr>terminalHooks := Some (clear m)\<rparr>)
        (disposeHooks (props m) s4)"
      by (simp add: releaseTerminals_def Let_def s4_def)
    moreover have "all_equipped \<dots>"
    proof (rule all_equipped_upd_each)
      show "all_equipped (disposeHooks (props m) s4)" using e4 by simp
    qed (simp add: equipped_def)
    ultimately show ?thesis by simp
  next
    case (Cons other rest)
    let ?s5 = "upd other (\<lambda>obj. obj\<lparr>terminalHooks := Some m\<rparr>) s4"
    from r Some f Cons have s': "s' = upd c (\<lambda>obj. obj\<lparr>terminalHooks := Some new_Map\<rparr>)
        (handleTerminals other ?s5)"
      by (simp add: releaseTerminals_def Let_def s4_def)
    have "all_equipped ?s5" using e4
      by (rule all_equipped_upd_each) (simp add: equipped_def)
    then have "all_equipped (handleTerminals other ?s5)"
      by (rule all_equipped_handleTerminals) (simp add: upd_nth)
    then show ?thesis unfolding s'
      by (rule all_equipped_upd_each) (simp add: equipped_def)
  qed
qed

lemma releaseTerminals_length:
  "releaseTerminals c s = Inr s' \<Longrightarrow> length (objs s') = length (objs s)"
  by (auto simp: releaseTerminals_def Let_def handleTerminals_def subscribe_def
      split: option.splits list.splits)

lemma all_equipped_dispose:
  assumes e: "all_equipped s" and c: "c < length (objs s)" and r: "dispose c s = Inr s'"
  shows "all_equipped s'"
proof -
  from r obtain s1 where s1: "releaseTerminals c s = Inr s1" "unhookEvents c s1 = Inr s'"
    by (auto simp: dispose_def thenE_def split: sum.splits)
  from all_equipped_releaseTerminals [OF e c s1(1)] have "all_equipped s1" .
  from all_equipped_unhookEvents [OF this s1(2)] show ?thesis .
qed

lemma all_equipped_construct:
  assumes e: "all_equipped s" and r: "construct e' s = Inr s'"
  shows "all_equipped s'"
proof -
  define c where "c = length (objs s)"
  define s2 where "s2 = s\<lparr>subs := subs s @ [(ConfigurationListener e' c, True)],
      objs := objs s @
        [\<lparr>editor = e', didChangeConfigurationHandler = length (subs s),
          editorMouseMoveHandler = None, terminalHooks = None,
          terminalInstanceCreatedHandler = None, terminalInstanceDisposedHandler = None\<rparr>]\<rparr>"
  define s3 where "s3 = (if length (Instances s2) = 0
      then handleTerminals c (upd c (\<lambda>obj. obj\<lparr>terminalHooks := Some new_Map\<rparr>) s2) else s2)"
  have e2: "all_equipped s2" using e by (simp add: s2_def all_equipped_def equipped_def)
  have c2: "c < length (objs s2)" by (simp add: s2_def c_def)
  have "all_equipped (upd c (\<lambda>obj. obj\<lparr>terminalHooks := Some new_Map\<rparr>) s2)" using e2
    by (rule all_equipped_upd_each) (simp add: equipped_def)
  then have "all_equipped (handleTerminals c (upd c (\<lambda>obj. obj\<lparr>terminalHooks := Some new_Map\<rparr>) s2))"
    by (rule all_equipped_handleTerminals) (simp add: upd_nth c2)
  with e2 have e3: "all_equipped s3" by (simp add: s3_def)
  have "construct e' s = thenE (hookEvents c s3) (\<lambda>s4. Inr (s4\<lparr>Instances := Instances s4 @ [c]\<rparr>))"
    by (simp add: construct_def subscribe_def Let_def c_def s2_def s3_def)
  with r obtain s4 where s4: "hookEvents c s3 = Inr s4" "s' = s4\<lparr>Instances := Instances s4 @ [c]\<rparr>"
    by (auto simp: thenE_def split: sum.splits)
  from all_equipped_hookEvents [OF e3 s4(1)] s4(2) show ?thesis by simp
qed

lemma all_equipped_fireDidChangeConfiguration:
  assumes "all_equipped s" and "fireDidChangeConfiguration e ev s = Inr s'"
  shows "all_equipped s'"
  using assms(2) unfolding fireDidChangeConfiguration_def
  by (rule each_keeps [where P = all_equipped, rotated 2])
    (rule all_equipped_onDidChangeConfiguration, assumption+, rule assms(1))

lemma all_equipped_fireInstanceCreated:
  assumes "all_equipped s" and "fireInstanceCreated t s = Inr s'"
  shows "all_equipped s'"
  using assms(2) unfolding fireInstanceCreated_def
  by (rule each_keeps [where P = all_equipped, rotated 2])
    (rule all_equipped_onTerminalCreated, assumption+, rule assms(1))

lemma all_equipped_fireInstanceDisposed:
  assumes "all_equipped s" and "fireInstanceDisposed t s = Inr s'"
  shows "all_equipped s'"
  using assms(2) unfolding fireInstanceDisposed_def
  by (rule each_keeps [where P = all_equipped, rotated 2])
    (rule all_equipped_onTerminalDisposed, assumption+, rule assms(1))

lemma all_equipped_step:
  assumes e: "all_equipped s" and r: "step a s = Inr s'"
    and c: "\<And>c. a = Dispose c \<Longrightarrow> c < length (objs s)"
  shows "all_equipped s'"
proof (cases a)
  case (Create e')
  with r all_equipped_construct [OF e] show ?thesis by simp
next
  case (Dispose d)
  with r all_equipped_dispose [OF e c] show ?thesis by simp
next
  case (SetFocusOnHover e' b)
  with r all_equipped_fireDidChangeConfiguration [of "s\<lparr>focusOnHover := (focusOnHover s)(e' := b)\<rparr>"] e
  show ?thesis by (simp add: setFocusOnHover_def)
next
  case (OtherConfigurationChange e')
  with r all_equipped_fireDidChangeConfiguration [OF e] show ?thesis by simp
next
  case (TerminalCreated t)
  with r all_equipped_fireInstanceCreated [of "s\<lparr>terminalInstances := terminalInstances s @ [t]\<rparr>"] e
  show ?thesis by (simp add: terminalCreated_def)
next
  case (TerminalDisposed t)
  with r all_equipped_fireInstanceDisposed
    [of "s\<lparr>terminalInstances := filter (\<lambda>x. x \<noteq> t) (terminalInstances s)\<rparr>"] e
  show ?thesis by (simp add: terminalDisposed_def)
qed

lemma exec_all_equipped:
  assumes "invariant s" and "legal (length (objs s)) (Instances s) as" and "all_equipped s"
    and "exec as s = Inr s'"
  shows "all_equipped s'"
  using assms
proof (induction as arbitrary: s)
  case Nil
  then show ?case by (simp add: exec_def)
next
  case (Cons a as)
  from step_invariant [OF Cons.prems(1,2)] obtain s1 where
    s1: "step a s = Inr s1" "invariant s1" "legal (length (objs s1)) (Instances s1) as" by blast
  have "c < length (objs s)" if "a = Dispose c" for c
  proof -
    from that Cons.prems(2) have "c \<in> set (Instances s)" by simp
    with Cons.prems(1) show ?thesis by (simp add: invariant_def consistent_bound)
  qed
  with all_equipped_step [OF Cons.prems(3) s1(1)] have e1: "all_equipped s1" by blast
  from Cons.prems(4) s1(1) have "exec as s1 = Inr s'" by (simp add: exec_def thenE_def)
  from Cons.IH [OF s1(2,3) e1 this] show ?case .
qed

lemma all_equipped_initial: "all_equipped (initial f ts)"
  by (simp add: all_equipped_def initial_def)

section \<open>Disposing a controller that is not live\<close>

lemma sorted_wrt_less_last:
  "sorted_wrt (<) xs \<Longrightarrow> d \<in> set xs \<Longrightarrow> d \<le> last (xs :: nat list)"
  by (induction xs) (auto simp: less_imp_le)

lemma exec_initial_equipped:
  assumes "legal 0 [] as" and "exec as (initial f ts) = Inr s"
  shows "invariant s \<and> all_equipped s \<and> Instances s = liveAfter 0 [] as"
proof -
  from exec_initial [OF assms(1), of f ts] assms(2)
  have "invariant s" "Instances s = liveAfter 0 [] as" by auto
  moreover have "all_equipped s"
    using exec_all_equipped [OF invariant_initial _ all_equipped_initial assms(2)] assms(1)
    by (simp add: initial_def)
  ultimately show ?thesis by simp
qed

text \<open>
  Claim C9, as amended. The controllers are constructed and disposed, each disposal so
  far of a live instance (\<open>legal\<close>: the registry is then the list \<open>liveAfter\<close> of the
  live controllers),
  and \<open>dispose\<close> is called on a controller \<open>c\<close> that was constructed and is not live, so not
  a member of the registry, while a live controller exists. Then \<^verbatim>\<open>indexOf\<close> answers
  -1 and \<^verbatim>\<open>splice(-1, 1)\<close> removes the last element of the registry: it is not
  \<open>c\<close>, it is a live controller, and no live controller was constructed after it (the
  controllers are numbered as they are constructed). The call does not end in a TypeError.
\<close>

theorem dispose_absent_removes_newest:
  assumes "legal 0 [] as" and "exec as (initial f ts) = Inr s"
    and "c < length (objs s)" and "c \<notin> set (liveAfter 0 [] as)" and "liveAfter 0 [] as \<noteq> []"
  shows "\<exists>s'. dispose c s = Inr s' \<and> Instances s = liveAfter 0 [] as \<and>
           Instances s' = butlast (liveAfter 0 [] as) \<and>
           last (liveAfter 0 [] as) \<noteq> c \<and>
           last (liveAfter 0 [] as) \<in> set (liveAfter 0 [] as) \<and>
           (\<forall>d \<in> set (liveAfter 0 [] as). d \<le> last (liveAfter 0 [] as))"
proof -
  from exec_initial_equipped [OF assms(1,2)]
  have e: "all_equipped s" and I: "Instances s = liveAfter 0 [] as" by simp_all
  from all_equipped_nth [OF e assms(3)]
  have f: "terminalInstanceCreatedHandler (objs s ! c) \<noteq> None \<longrightarrow>
         terminalInstanceDisposedHandler (objs s ! c) \<noteq> None \<and> terminalHooks (objs s ! c) \<noteq> None"
    by (simp add: equipped_def)
  from dispose_absent_butlast [of c s, OF _ _ assms(3) f] assms(4,5) I
  obtain s' where s': "dispose c s = Inr s'" "Instances s' = butlast (liveAfter 0 [] as)"
    "last (liveAfter 0 [] as) \<noteq> c" by auto
  have "sorted_wrt (<) (liveAfter 0 [] as)" by (rule liveAfter_sorted) simp_all
  then have "\<forall>d \<in> set (liveAfter 0 [] as). d \<le> last (liveAfter 0 [] as)"
    using sorted_wrt_less_last by blast
  with s' I assms(5) show ?thesis by simp
qed

text \<open>
  Three controllers are created and the first is disposed; disposing the first once more
  removes the third, the newest of the two live controllers, from the registry.
\<close>

theorem dispose_absent_removes_newest_witness:
  "legal 0 [] [Create 0, Create 1, Create 2, Dispose 0] \<and>
   liveAfter 0 [] [Create 0, Create 1, Create 2, Dispose 0] = [1, 2] \<and>
   (\<exists>s s'. exec [Create 0, Create 1, Create 2, Dispose 0] (initial (\<lambda>e. True) [5]) = Inr s \<and>
      0 < length (objs s) \<and> Instances s = [1, 2] \<and>
      dispose 0 s = Inr s' \<and> Instances s' = [1])"
proof -
  have l: "legal 0 [] [Create 0, Create 1, Create 2, Dispose 0]" by simp
  have a: "liveAfter 0 [] [Create 0, Create 1, Create 2, Dispose 0] = [1, 2]"
    by (simp add: numeral_2_eq_2 numeral_3_eq_3)
  have "\<exists>s. exec [Create 0, Create 1, Create 2, Dispose 0] (initial (\<lambda>e. True) [5]) = Inr s \<and>
     0 < length (objs s)"
    by (simp add: run_defs)
  then obtain s where
    s: "exec [Create 0, Create 1, Create 2, Dispose 0] (initial (\<lambda>e. True) [5]) = Inr s"
    "0 < length (objs s)" by blast
  from dispose_absent_removes_newest [OF l s, unfolded a] l a s show ?thesis by auto
qed

text \<open>
  Claim C9 as stated, for every call of \<open>dispose\<close> on an instance that is not a member
  of the registry, fails once such a call has been made before. Three controllers
  are created on editors with the flag off and the third is disposed three times. The
  live controllers are 0 and 1. The second disposal removes controller 1 from the
  registry, which is then \<open>[0]\<close>; the third removes controller 0, while controller 1,
  constructed after it, is live: it was never disposed and its configuration-change
  subscription, subscription 3, is active.
\<close>

theorem dispose_absent_counterexample:
  "liveAfter 0 [] [Create 0, Create 1, Create 2, Dispose 2, Dispose 2] = [0, 1] \<and>
   map_sum id Instances
     (exec [Create 0, Create 1, Create 2, Dispose 2, Dispose 2] (initial (flagOn []) [])) =
   Inr [0] \<and>
   map_sum id Instances
     (exec [Create 0, Create 1, Create 2, Dispose 2, Dispose 2, Dispose 2]
        (initial (flagOn []) [])) = Inr [] \<and>
   map_sum id subs
     (exec [Create 0, Create 1, Create 2, Dispose 2, Dispose 2, Dispose 2]
        (initial (flagOn []) [])) =
   Inr [(ConfigurationListener 0 0, True), (InstanceCreatedListener 0, True),
        (InstanceDisposedListener 0, True), (ConfigurationListener 1 1, True),
        (ConfigurationListener 2 2, False)]"
  by (simp add: run_defs flagOn_def numeral_2_eq_2 numeral_3_eq_3)

section \<open>Turning the flag off and on\<close>






end
